theory Spec2Isabelle
  imports Complex_Main "HOL-Library.AList" "HOL-Library.Sublist"
begin

section \<open>Python values used by the relay\<close>

text \<open>
  The relay (\<^verbatim>\<open>monstr/relay/relay.py\<close>) handles whatever \<^verbatim>\<open>json.loads\<close> returns:
  \<^verbatim>\<open>None\<close>, booleans, integers, floats, strings, lists and dicts with string keys.
  A float is kept by its value; \<^verbatim>\<open>json.loads\<close> also accepts the constants
  \<^verbatim>\<open>Infinity\<close>, \<^verbatim>\<open>-Infinity\<close> and \<^verbatim>\<open>NaN\<close>.
\<close>

datatype pyfloat = Finite rat | PosInf | NegInf | NaN

datatype json =
    JNull
  | JBool bool
  | JInt int
  | JFloat pyfloat
  | JStr string
  | JArr "json list"
  | JObj "(string \<times> json) list"

text \<open>The exceptions that occur in the module, by class.\<close>

datatype exn =
    NostrCommandException string
  | JSONDecodeError
  | ValueError
  | RecursionError
  | TypeError
  | KeyError
  | IndexError
  | IntegrityError string
  | UniqueViolation string
  | ConnectionError
  | Exception string

text \<open>\<^verbatim>\<open>str(e)\<close> of an exception built from one message.\<close>

fun exn_str :: "exn \<Rightarrow> string" where
  "exn_str (NostrCommandException m) = m"
| "exn_str (IntegrityError m) = m"
| "exn_str (UniqueViolation m) = m"
| "exn_str (Exception m) = m"
| "exn_str JSONDecodeError = []"
| "exn_str ValueError = []"
| "exn_str RecursionError = []"
| "exn_str TypeError = []"
| "exn_str KeyError = []"
| "exn_str IndexError = []"
| "exn_str ConnectionError = []"

text \<open>Truth value of a Python object, as \<^verbatim>\<open>not x\<close> and \<^verbatim>\<open>if x:\<close> read it.\<close>

fun truthy :: "json \<Rightarrow> bool" where
  "truthy JNull = False"
| "truthy (JBool b) = b"
| "truthy (JInt i) = (i \<noteq> 0)"
| "truthy (JFloat (Finite q)) = (q \<noteq> 0)"
| "truthy (JFloat _) = True"
| "truthy (JStr s) = (s \<noteq> [])"
| "truthy (JArr xs) = (xs \<noteq> [])"
| "truthy (JObj kvs) = (kvs \<noteq> [])"

text \<open>
  \<^verbatim>\<open>x[0]\<close>: the first element of a list, the first character of a string (a string of
  length one); a dict from JSON has string keys only, so the key \<^verbatim>\<open>0\<close> is missing; every
  other value is not subscriptable. An empty list or string raises IndexError; the
  caller excludes both by testing the truth value first.
\<close>

fun getitem0 :: "json \<Rightarrow> exn + json" where
  "getitem0 (JArr (x # xs)) = Inr x"
| "getitem0 (JStr (c # cs)) = Inr (JStr [c])"
| "getitem0 (JArr []) = Inl IndexError"
| "getitem0 (JStr []) = Inl IndexError"
| "getitem0 (JObj kvs) = Inl KeyError"
| "getitem0 _ = Inl TypeError"

text \<open>The items of a sequence, for \<^verbatim>\<open>len\<close>, indexing and slicing.\<close>

fun py_items :: "json \<Rightarrow> json list" where
  "py_items (JArr xs) = xs"
| "py_items (JStr s) = map (\<lambda>c. JStr [c]) s"
| "py_items _ = []"

subsection \<open>Dicts keyed by JSON values\<close>

text \<open>
  A dict compares keys by hash and equality: \<^verbatim>\<open>1\<close>, \<^verbatim>\<open>1.0\<close> and \<^verbatim>\<open>True\<close> are one key, lists
  and dicts are unhashable (TypeError). \<open>py_key\<close> gives the class of a key, \<open>None\<close> for an
  unhashable value. A dict keeps insertion order, so it is an association list; the key
  object stored is the one first inserted.
\<close>

datatype key = KNone | KNum rat | KPosInf | KNegInf | KNaN | KStr string

fun py_key :: "json \<Rightarrow> key option" where
  "py_key JNull = Some KNone"
| "py_key (JBool b) = Some (KNum (if b then 1 else 0))"
| "py_key (JInt i) = Some (KNum (of_int i))"
| "py_key (JFloat (Finite q)) = Some (KNum q)"
| "py_key (JFloat PosInf) = Some KPosInf"
| "py_key (JFloat NegInf) = Some KNegInf"
| "py_key (JFloat NaN) = Some KNaN"
| "py_key (JStr s) = Some (KStr s)"
| "py_key (JArr xs) = None"
| "py_key (JObj kvs) = None"

fun dict_get :: "json \<Rightarrow> (json \<times> 'v) list \<Rightarrow> 'v option" where
  "dict_get k [] = None"
| "dict_get k ((k', v) # d) = (if py_key k' = py_key k then Some v else dict_get k d)"

definition dict_in :: "json \<Rightarrow> (json \<times> 'v) list \<Rightarrow> bool" where
  "dict_in k d = (dict_get k d \<noteq> None)"

fun dict_set :: "json \<Rightarrow> 'v \<Rightarrow> (json \<times> 'v) list \<Rightarrow> (json \<times> 'v) list" where
  "dict_set k v [] = [(k, v)]"
| "dict_set k v ((k', v') # d) =
     (if py_key k' = py_key k then (k', v) # d else (k', v') # dict_set k v d)"

fun dict_del :: "json \<Rightarrow> (json \<times> 'v) list \<Rightarrow> (json \<times> 'v) list" where
  "dict_del k [] = []"
| "dict_del k ((k', v') # d) =
     (if py_key k' = py_key k then d else (k', v') # dict_del k d)"

subsection \<open>Strings\<close>

text \<open>
  \<^verbatim>\<open>'%s' % n\<close> for an integer: its decimal digits, with a minus sign when negative.
\<close>

definition digit_char :: "nat \<Rightarrow> char" where
  "digit_char d = char_of (48 + d)"

fun str_nat :: "nat \<Rightarrow> string" where
  "str_nat n = (if n < 10 then [digit_char n] else str_nat (n div 10) @ [digit_char (n mod 10)])"

definition str_int :: "int \<Rightarrow> string" where
  "str_int i = (if i < 0 then CHR ''-'' # str_nat (nat (- i)) else str_nat (nat i))"

text \<open>
  \<^verbatim>\<open>s.lower()\<close> on the characters of one byte: the ASCII capitals and the Latin-1
  capitals move by 32.
\<close>

definition lower_char :: "char \<Rightarrow> char" where
  "lower_char c =
     (let n = (of_char c :: nat)
      in if (65 \<le> n \<and> n \<le> 90) \<or> (192 \<le> n \<and> n \<le> 222 \<and> n \<noteq> 215)
         then char_of (n + 32) else c)"

definition lower :: "string \<Rightarrow> string" where
  "lower s = map lower_char s"

text \<open>\<^verbatim>\<open>a in b\<close> for two strings: \<open>a\<close> occurs in \<open>b\<close> as a contiguous block.\<close>

fun starts_with :: "string \<Rightarrow> string \<Rightarrow> bool" where
  "starts_with [] s = True"
| "starts_with (a # as) [] = False"
| "starts_with (a # as) (b # bs) = (a = b \<and> starts_with as bs)"

fun str_in :: "string \<Rightarrow> string \<Rightarrow> bool" where
  "str_in a [] = (a = [])"
| "str_in a (b # bs) = (starts_with a (b # bs) \<or> str_in a bs)"

section \<open>The relay and its surroundings\<close>

text \<open>
  One subscription, the dict \<^verbatim>\<open>{'id': sub_id, 'filter': filter}\<close>, and one entry of
  \<^verbatim>\<open>self._ws\<close>, the dict \<^verbatim>\<open>{'subs': {}, 'ws': ws}\<close>. A socket is known by its \<^verbatim>\<open>ws.id\<close>.
\<close>

record sub =
  sub_ident :: json
  sub_filter :: json

record conn =
  subs :: "(json \<times> sub) list"
  sock :: int

text \<open>
  What the event loop can run. \<open>Do_send\<close> and \<open>Send_event\<close> are the coroutines
  \<^verbatim>\<open>_do_send\<close> and \<^verbatim>\<open>_send_event\<close> wrapped by \<^verbatim>\<open>asyncio.create_task\<close>; the last
  argument of \<open>Send_event\<close> is the \<^verbatim>\<open>_do_sub\<close> frame that awaits the task, if any:
  its socket, its \<^verbatim>\<open>sub_id\<close> and the events its loop has still to send. \<open>Do_sub_resume\<close>
  is that frame once the awaited task is done, \<open>Ws_msg\<close> the read loop of
  \<^verbatim>\<open>_websocket_handler\<close> woken with a text message.
\<close>

datatype task =
    Do_send int json
  | Send_event int json json "(int \<times> json \<times> json list) option"
  | Do_sub_resume int json "json list"
  | Ws_msg int string

text \<open>
  The state: the fields of the \<^verbatim>\<open>Relay\<close> object (\<open>ws_id\<close> is \<^verbatim>\<open>self._ws_id\<close>, \<open>ws\<close> is
  \<^verbatim>\<open>self._ws\<close>, \<open>store\<close> the state of \<^verbatim>\<open>self._store\<close>, and so on), the queue of ready
  callbacks of the asyncio loop, and the record of every \<^verbatim>\<open>ws.send_str\<close> call: the socket,
  the value handed to \<^verbatim>\<open>json.dumps\<close> and whether the write succeeded. An accept handler
  is its \<^verbatim>\<open>accept_post(ws, evt)\<close>: the exception it raises, if any.
\<close>

record ('e, 's) relay =
  ws_id :: int
  ws :: "(int \<times> conn) list"
  store :: 's
  max_sub :: int
  enable_nip15 :: bool
  accept_req :: "(int \<Rightarrow> 'e \<Rightarrow> exn option) list"
  relay_information :: json
  ready :: "task list"
  sends :: "(int \<times> json \<times> bool) list"

text \<open>
  What the module imports and does not define: \<^verbatim>\<open>json.loads\<close> (which raises
  JSONDecodeError on text that is not JSON, and also RecursionError on deep nesting
  and ValueError on an integer of too many digits), \<^verbatim>\<open>Keys.is_key\<close>, the class \<^verbatim>\<open>Event\<close>, the store behind
  \<^verbatim>\<open>RelayEventStoreInterface\<close>, whether \<^verbatim>\<open>psycopg2\<close> could be imported, \<^verbatim>\<open>'%s' % x\<close>
  for a value that is not a string, and the outcome of the \<open>n\<close>-th socket write. A store
  call returns the exception it raises, if any, and the store's new state.
\<close>

record ('e, 's) env =
  json_loads :: "string \<Rightarrow> exn + json"
  is_key :: "string \<Rightarrow> bool"
  from_JSON :: "json \<Rightarrow> exn + 'e"
  is_valid :: "'e \<Rightarrow> bool"
  ev_id :: "'e \<Rightarrow> string"
  ev_kind :: "'e \<Rightarrow> int"
  KIND_DELETE :: int
  ev_test :: "'e \<Rightarrow> json \<Rightarrow> exn + bool"
  event_data :: "'e \<Rightarrow> json"
  add_event :: "'e \<Rightarrow> 's \<Rightarrow> exn option \<times> 's"
  do_delete :: "'e \<Rightarrow> 's \<Rightarrow> exn option \<times> 's"
  get_filter :: "json \<Rightarrow> 's \<Rightarrow> exn + json list"
  is_NIP09 :: "'s \<Rightarrow> bool"
  is_NIP16 :: "'s \<Rightarrow> bool"
  pg_errors :: bool
  str_of :: "json \<Rightarrow> string"
  send_ok :: "nat \<Rightarrow> int \<Rightarrow> json \<Rightarrow> bool"

text \<open>\<^verbatim>\<open>'%s' % x\<close>: a string is printed as it is.\<close>

definition fmt :: "('e, 's) env \<Rightarrow> json \<Rightarrow> string" where
  "fmt E x = (case x of JStr s \<Rightarrow> s | _ \<Rightarrow> str_of E x)"

subsection \<open>\<^verbatim>\<open>Relay.__init__\<close>\<close>

definition VALID_CMDS :: "json list" where
  "VALID_CMDS = [JStr ''EVENT'', JStr ''REQ'', JStr ''CLOSE'']"

text \<open>An optional string argument as \<^verbatim>\<open>if name:\<close> reads it: given and not empty.\<close>

definition info_field :: "string \<Rightarrow> string option \<Rightarrow> (string \<times> json) list" where
  "info_field k v = (case v of None \<Rightarrow> [] | Some s \<Rightarrow> if s = [] then [] else [(k, JStr s)])"

definition supported_nips :: "('e, 's) env \<Rightarrow> 's \<Rightarrow> bool \<Rightarrow> int list" where
  "supported_nips E st nip15 =
     sort ([1, 2, 11] @ (if nip15 then [15] else [])
                      @ (if is_NIP09 E st then [9] else [])
                      @ (if is_NIP16 E st then [16] else []))"

text \<open>
  The constructor, in the order of the source: the first test of \<^verbatim>\<open>pubkey\<close> (line 100),
  the list of NIPs, the information dict, and the second test of \<^verbatim>\<open>pubkey\<close> (lines 124
  to 127). \<^verbatim>\<open>accept_req_handler=None\<close> stands for one handler that accepts everything.
\<close>

definition bad_pubkey :: "string \<Rightarrow> exn" where
  "bad_pubkey p = Exception (''given contact pubkey is not correct: '' @ p)"

definition Relay_init ::
  "('e, 's) env \<Rightarrow> 's \<Rightarrow> (int \<Rightarrow> 'e \<Rightarrow> exn option) list option \<Rightarrow> int \<Rightarrow> string option \<Rightarrow>
   string option \<Rightarrow> string option \<Rightarrow> string option \<Rightarrow> bool \<Rightarrow> exn + ('e, 's) relay" where
  "Relay_init E st accept_req_handler maxsub name description pubkey contact nip15 =
     (let handlers = (case accept_req_handler of None \<Rightarrow> [\<lambda>w e. None] | Some hs \<Rightarrow> hs);
          info = [(''software'', JStr ''https://github.com/monty888/nostrpy''),
                  (''version'', JStr ''0.1''),
                  (''supported_nips'', JArr (map JInt (supported_nips E st nip15)))]
                 @ info_field ''name'' name
                 @ info_field ''description'' description
                 @ info_field ''contact'' contact;
          mk = (\<lambda>i. \<lparr>ws_id = 0, ws = [], store = st, max_sub = maxsub,
                      enable_nip15 = nip15, accept_req = handlers,
                      relay_information = JObj i, ready = [], sends = []\<rparr>)
      in case pubkey of
           None \<Rightarrow> Inr (mk info)
         | Some p \<Rightarrow>
             if \<not> is_key E p then Inl (bad_pubkey p)
             else if is_key E p then Inl (bad_pubkey p)
             else Inr (mk (info @ [(''pubkey'', JStr p)])))"

subsection \<open>Sending\<close>

text \<open>
  \<^verbatim>\<open>ws.send_str(json.dumps(data))\<close>: the call is recorded with its outcome, and a failed
  write raises. \<^verbatim>\<open>_do_send\<close> wraps it in \<^verbatim>\<open>try ... except Exception\<close> and only logs.
  A function that can raise returns the exception, if any, with the state it leaves.
\<close>

definition send_str ::
  "('e, 's) env \<Rightarrow> int \<Rightarrow> json \<Rightarrow> ('e, 's) relay \<Rightarrow> exn option \<times> ('e, 's) relay" where
  "send_str E w d s =
     (let ok = send_ok E (length (sends s)) w d;
          s' = s\<lparr>sends := sends s @ [(w, d, ok)]\<rparr>
      in (if ok then None else Some ConnectionError, s'))"

definition do_send :: "('e, 's) env \<Rightarrow> int \<Rightarrow> json \<Rightarrow> ('e, 's) relay \<Rightarrow> ('e, 's) relay" where
  "do_send E w d s = snd (send_str E w d s)"

text \<open>\<^verbatim>\<open>asyncio.create_task\<close>: the task's first step goes to the end of the ready queue.\<close>

definition create_task :: "task \<Rightarrow> ('e, 's) relay \<Rightarrow> ('e, 's) relay" where
  "create_task t s = s\<lparr>ready := ready s @ [t]\<rparr>"

definition event_frame :: "json \<Rightarrow> json \<Rightarrow> json" where
  "event_frame sub_id evt = JArr [JStr ''EVENT'', sub_id, evt]"

definition eose_frame :: "json \<Rightarrow> json" where
  "eose_frame sub_id = JArr [JStr ''EOSE'', sub_id]"

definition notice_frame :: "string \<Rightarrow> json" where
  "notice_frame m = JArr [JStr ''NOTICE'', JStr m]"

text \<open>
  \<^verbatim>\<open>_send_event\<close> does not await the write: it creates a task for \<^verbatim>\<open>_do_send\<close> and
  returns. \<^verbatim>\<open>_send_eose\<close> awaits \<^verbatim>\<open>_do_send\<close> itself.
\<close>

definition send_event :: "int \<Rightarrow> json \<Rightarrow> json \<Rightarrow> ('e, 's) relay \<Rightarrow> ('e, 's) relay" where
  "send_event w sub_id evt s = create_task (Do_send w (event_frame sub_id evt)) s"

definition send_eose :: "('e, 's) env \<Rightarrow> int \<Rightarrow> json \<Rightarrow> ('e, 's) relay \<Rightarrow> ('e, 's) relay" where
  "send_eose E w sub_id s = do_send E w (eose_frame sub_id) s"

subsection \<open>\<^verbatim>\<open>_check_subs\<close>: the live fan-out\<close>

text \<open>
  The two nested loops, over \<^verbatim>\<open>self._ws\<close> and over the \<^verbatim>\<open>subs\<close> of each entry, in
  insertion order. \<^verbatim>\<open>evt.test\<close> may raise on a filter it cannot read; the tasks created
  before that stay scheduled.
\<close>

fun check_conn_subs ::
  "('e, 's) env \<Rightarrow> 'e \<Rightarrow> int \<Rightarrow> (json \<times> sub) list \<Rightarrow> ('e, 's) relay \<Rightarrow>
   exn option \<times> ('e, 's) relay" where
  "check_conn_subs E evt w [] s = (None, s)"
| "check_conn_subs E evt w ((c_sub_id, the_sub) # rest) s =
     (case ev_test E evt (sub_filter the_sub) of
        Inl e \<Rightarrow> (Some e, s)
      | Inr True \<Rightarrow>
          check_conn_subs E evt w rest
            (create_task (Send_event w c_sub_id (event_data E evt) None) s)
      | Inr False \<Rightarrow> check_conn_subs E evt w rest s)"

fun check_subs_loop ::
  "('e, 's) env \<Rightarrow> 'e \<Rightarrow> (int \<times> conn) list \<Rightarrow> ('e, 's) relay \<Rightarrow> exn option \<times> ('e, 's) relay" where
  "check_subs_loop E evt [] s = (None, s)"
| "check_subs_loop E evt ((socket_id, c) # rest) s =
     (case check_conn_subs E evt (sock c) (subs c) s of
        (Some e, s') \<Rightarrow> (Some e, s')
      | (None, s') \<Rightarrow> check_subs_loop E evt rest s')"

definition check_subs ::
  "('e, 's) env \<Rightarrow> 'e \<Rightarrow> ('e, 's) relay \<Rightarrow> exn option \<times> ('e, 's) relay" where
  "check_subs E evt s = check_subs_loop E evt (ws s) s"

subsection \<open>\<^verbatim>\<open>_do_sub\<close> and \<^verbatim>\<open>_do_unsub\<close>\<close>

text \<open>
  The loop of \<^verbatim>\<open>_do_sub\<close> over the stored events, from the point where \<open>evts\<close> are left:
  with none left it sends EOSE when enabled and returns; otherwise it creates the task
  for the next event and suspends at \<^verbatim>\<open>await task\<close>, to be resumed by the event loop
  with the rest.
\<close>

definition backfill ::
  "('e, 's) env \<Rightarrow> int \<Rightarrow> json \<Rightarrow> json list \<Rightarrow> ('e, 's) relay \<Rightarrow> ('e, 's) relay" where
  "backfill E w sub_id evts s =
     (case evts of
        [] \<Rightarrow> if enable_nip15 s then send_eose E w sub_id s else s
      | c_evt # rest \<Rightarrow> create_task (Send_event w sub_id c_evt (Some (w, sub_id, rest))) s)"

definition do_sub ::
  "('e, 's) env \<Rightarrow> json list \<Rightarrow> int \<Rightarrow> ('e, 's) relay \<Rightarrow> exn option \<times> ('e, 's) relay" where
  "do_sub E req_json w s =
     (if length req_json \<le> 1 then
        (Some (NostrCommandException ''REQ command missing sub_id''), s)
      else
        let sub_id = req_json ! 1;
            fltr = (if length req_json > 2 then JArr (drop 2 req_json) else JObj []);
            socket_id = w
        in case map_of (ws s) socket_id of
             None \<Rightarrow> (Some KeyError, s)
           | Some c \<Rightarrow>
               if py_key sub_id = None then (Some TypeError, s)
               else if dict_in sub_id (subs c) then
                 (Some (NostrCommandException
                    (''REQ command for sub_id that already exists - '' @ fmt E sub_id)), s)
               else if int (length (subs c)) \<ge> max_sub s then
                 (Some (NostrCommandException
                    (''REQ new sub_id '' @ fmt E sub_id
                       @ '' not allowed, already at max subs='' @ str_int (max_sub s))), s)
               else
                 let the_sub = \<lparr>sub_ident = sub_id, sub_filter = fltr\<rparr>;
                     c' = c\<lparr>subs := dict_set sub_id the_sub (subs c)\<rparr>;
                     s1 = s\<lparr>ws := AList.update socket_id c' (ws s)\<rparr>
                 in (case get_filter E fltr (store s1) of
                       Inl e \<Rightarrow> (Some e, s1)
                     | Inr evts \<Rightarrow> (None, backfill E w sub_id evts s1)))"

definition do_unsub ::
  "('e, 's) env \<Rightarrow> json list \<Rightarrow> int \<Rightarrow> ('e, 's) relay \<Rightarrow> exn option \<times> ('e, 's) relay" where
  "do_unsub E req_json w s =
     (if length req_json \<le> 1 then
        (Some (NostrCommandException ''REQ command missing sub_id''), s)
      else
        let sub_id = req_json ! 1;
            socket_id = w
        in case map_of (ws s) socket_id of
             None \<Rightarrow> (Some KeyError, s)
           | Some c \<Rightarrow>
               if py_key sub_id = None then (Some TypeError, s)
               else if \<not> dict_in sub_id (subs c) then
                 (Some (NostrCommandException
                    (''CLOSE command for sub_id that not subscribed to, nothing to do - ''
                       @ fmt E sub_id)), s)
               else
                 (Some (NostrCommandException
                    (''CLOSE command for sub_id '' @ fmt E sub_id @ '' - success'')),
                  s\<lparr>ws := AList.update socket_id (c\<lparr>subs := dict_del sub_id (subs c)\<rparr>) (ws s)\<rparr>))"

subsection \<open>\<^verbatim>\<open>_do_event\<close>\<close>

text \<open>The accept handlers are called in order; the first exception ends the loop.\<close>

fun accept_post :: "(int \<Rightarrow> 'e \<Rightarrow> exn option) list \<Rightarrow> int \<Rightarrow> 'e \<Rightarrow> exn option" where
  "accept_post [] w evt = None"
| "accept_post (c_accept # rest) w evt =
     (case c_accept w evt of Some e \<Rightarrow> Some e | None \<Rightarrow> accept_post rest w evt)"

text \<open>
  Modelled from the spec: \<^verbatim>\<open>NostrCommandException.event_already_exists\<close>, of
  \<^verbatim>\<open>monstr/exception.py\<close>, which is not among the sources. The specification gives the
  text of the notice as "event already exists: <id>".
\<close>

definition event_already_exists :: "string \<Rightarrow> exn" where
  "event_already_exists i = NostrCommandException (''event already exists: '' @ i)"

text \<open>
  \<^verbatim>\<open>isinstance(e, i_exceptions)\<close>: \<^verbatim>\<open>sqlite3.IntegrityError\<close>, and
  \<^verbatim>\<open>psycopg2.errors.UniqueViolation\<close> when \<^verbatim>\<open>psycopg2\<close> was imported.
\<close>

definition is_integrity :: "bool \<Rightarrow> exn \<Rightarrow> bool" where
  "is_integrity pg e =
     (case e of IntegrityError m \<Rightarrow> True | UniqueViolation m \<Rightarrow> pg | _ \<Rightarrow> False)"

text \<open>The body of the \<^verbatim>\<open>try\<close> (lines 276 to 282).\<close>

definition do_event_try ::
  "('e, 's) env \<Rightarrow> 'e \<Rightarrow> ('e, 's) relay \<Rightarrow> exn option \<times> ('e, 's) relay" where
  "do_event_try E evt s =
     (case add_event E evt (store s) of
        (Some e, st1) \<Rightarrow> (Some e, s\<lparr>store := st1\<rparr>)
      | (None, st1) \<Rightarrow>
          if ev_kind E evt = KIND_DELETE E then
            (case do_delete E evt st1 of
               (Some e, st2) \<Rightarrow> (Some e, s\<lparr>store := st2\<rparr>)
             | (None, st2) \<Rightarrow> check_subs E evt (s\<lparr>store := st2\<rparr>))
          else check_subs E evt (s\<lparr>store := st1\<rparr>))"

text \<open>
  The \<^verbatim>\<open>except Exception as e\<close> clause (lines 283 to 294): an integrity error whose
  lower-cased message holds both \<^verbatim>\<open>event_id\<close> and \<^verbatim>\<open>unique\<close> is raised again as a
  NostrCommandException; any other integrity error is dropped; every other exception
  is logged at debug level and dropped.
\<close>

definition do_event_except ::
  "('e, 's) env \<Rightarrow> 'e \<Rightarrow> exn \<Rightarrow> ('e, 's) relay \<Rightarrow> exn option \<times> ('e, 's) relay" where
  "do_event_except E evt e s =
     (if is_integrity (pg_errors E) e then
        (let msg = lower (exn_str e)
         in if str_in ''event_id'' msg \<and> str_in ''unique'' msg
            then (Some (event_already_exists (ev_id E evt)), s)
            else (None, s))
      else (None, s))"

definition do_event ::
  "('e, 's) env \<Rightarrow> json list \<Rightarrow> int \<Rightarrow> ('e, 's) relay \<Rightarrow> exn option \<times> ('e, 's) relay" where
  "do_event E req_json w s =
     (if length req_json \<le> 1 then
        (Some (NostrCommandException ''EVENT command missing event data''), s)
      else
        case from_JSON E (req_json ! 1) of
          Inl e \<Rightarrow> (Some e, s)
        | Inr evt \<Rightarrow>
            if \<not> is_valid E evt then
              (Some (NostrCommandException ''invalid event, pubkey doesn't match sig''), s)
            else
              (case accept_post (accept_req s) w evt of
                 Some e \<Rightarrow> (Some e, s)
               | None \<Rightarrow>
                   (case do_event_try E evt s of
                      (Some e, s') \<Rightarrow> do_event_except E evt e s'
                    | (None, s') \<Rightarrow> (None, s'))))"

subsection \<open>\<^verbatim>\<open>_do_request\<close>\<close>

text \<open>
  The body of the \<^verbatim>\<open>try\<close> after \<^verbatim>\<open>json.loads\<close> (lines 240 to 253). A command in
  \<open>VALID_CMDS\<close> is longer than one character, so \<open>as_json\<close> is a list when a handler
  is called.
\<close>

definition do_command ::
  "('e, 's) env \<Rightarrow> int \<Rightarrow> json \<Rightarrow> ('e, 's) relay \<Rightarrow> exn option \<times> ('e, 's) relay" where
  "do_command E w as_json s =
     (if \<not> truthy as_json then (Some (NostrCommandException ''No command received''), s)
      else
        case getitem0 as_json of
          Inl e \<Rightarrow> (Some e, s)
        | Inr cmd \<Rightarrow>
            if cmd \<notin> set VALID_CMDS then
              (Some (NostrCommandException (''unsupported command '' @ fmt E cmd)), s)
            else if cmd = JStr ''EVENT'' then do_event E (py_items as_json) w s
            else if cmd = JStr ''REQ'' then do_sub E (py_items as_json) w s
            else if cmd = JStr ''CLOSE'' then do_unsub E (py_items as_json) w s
            else (None, s))"

text \<open>
  \<^verbatim>\<open>_do_request\<close>: nothing is done for an empty string; a JSONDecodeError and a
  NostrCommandException, from \<^verbatim>\<open>json.loads\<close> or from a handler, are answered with a
  NOTICE written with \<^verbatim>\<open>ws.send_str\<close> directly; any other exception, also one that
  \<^verbatim>\<open>json.loads\<close> raises, leaves the function.
\<close>

definition do_request ::
  "('e, 's) env \<Rightarrow> int \<Rightarrow> string \<Rightarrow> ('e, 's) relay \<Rightarrow> exn option \<times> ('e, 's) relay" where
  "do_request E w req_str s =
     (if req_str = [] then (None, s)
      else
        case (case json_loads E req_str of
                Inl e \<Rightarrow> (Some e, s)
              | Inr as_json \<Rightarrow> do_command E w as_json s) of
          (Some JSONDecodeError, s') \<Rightarrow>
             send_str E w (notice_frame ''unable to decode command string'') s'
        | (Some (NostrCommandException m), s') \<Rightarrow> send_str E w (notice_frame m) s'
        | r \<Rightarrow> r)"

subsection \<open>\<^verbatim>\<open>_websocket_handler\<close> and the information document\<close>

text \<open>
  \<^verbatim>\<open>aiohttp.web.Response(text=...)\<close> with no other argument: status 200, content type
  \<^verbatim>\<open>text/plain\<close>, charset \<^verbatim>\<open>utf-8\<close>. \<open>body\<close> is the value whose \<^verbatim>\<open>json.dumps\<close> is the text.
\<close>

record response =
  status :: nat
  content_type :: string
  charset :: string
  body :: json

definition web_Response :: "json \<Rightarrow> response" where
  "web_Response b = \<lparr>status = 200, content_type = ''text/plain'', charset = ''utf-8'', body = b\<rparr>"

definition NIP11_relay_info_route :: "('e, 's) relay \<Rightarrow> response" where
  "NIP11_relay_info_route s = web_Response (relay_information s)"

text \<open>
  The handler up to its read loop: a request that cannot be upgraded gets the
  information document; otherwise the socket gets the next id and its entry in
  \<^verbatim>\<open>self._ws\<close>. \<open>can_prepare\<close> is \<^verbatim>\<open>ws.can_prepare(request).ok\<close>.
\<close>

definition websocket_handler ::
  "bool \<Rightarrow> ('e, 's) relay \<Rightarrow> (response + int) \<times> ('e, 's) relay" where
  "websocket_handler can_prepare s =
     (if \<not> can_prepare then (Inl (NIP11_relay_info_route s), s)
      else
        let i = ws_id s
        in (Inr i, s\<lparr>ws_id := i + 1, ws := AList.update i \<lparr>subs = [], sock = i\<rparr> (ws s)\<rparr>))"

text \<open>The handler after its read loop has ended: \<^verbatim>\<open>del self._ws[ws.id]\<close>.\<close>

definition websocket_closed :: "int \<Rightarrow> ('e, 's) relay \<Rightarrow> exn option \<times> ('e, 's) relay" where
  "websocket_closed w s =
     (case map_of (ws s) w of
        None \<Rightarrow> (Some KeyError, s)
      | Some c \<Rightarrow> (None, s\<lparr>ws := AList.delete w (ws s)\<rparr>))"

subsection \<open>The event loop\<close>

text \<open>
  asyncio runs one callback at a time, taken from the front of a first-in first-out
  queue of ready callbacks; a coroutine runs without interruption up to its next
  \<^verbatim>\<open>await\<close> of something that is not done. \<^verbatim>\<open>create_task\<close> puts the first step of the
  new task at the end of the queue, and a task that finishes puts the coroutine that
  awaits it at the end of the queue. \<^verbatim>\<open>ws.send_str\<close> is taken to finish, or to raise,
  without suspending.

  \<open>run_task\<close> is one callback. A finished \<^verbatim>\<open>_send_event\<close> task wakes the \<^verbatim>\<open>_do_sub\<close>
  frame that awaits it, which goes to the end of the queue behind the \<^verbatim>\<open>_do_send\<close> task
  just created. An exception that leaves \<^verbatim>\<open>_do_request\<close> ends the handler of that socket
  before its \<^verbatim>\<open>del self._ws[ws.id]\<close>; the state is as the exception left it.
\<close>

fun run_task :: "('e, 's) env \<Rightarrow> task \<Rightarrow> ('e, 's) relay \<Rightarrow> ('e, 's) relay" where
  "run_task E (Do_send w d) s = do_send E w d s"
| "run_task E (Send_event w sub_id evt waiter) s =
     (let s1 = send_event w sub_id evt s
      in case waiter of
           None \<Rightarrow> s1
         | Some (w', sub_id', rest) \<Rightarrow> create_task (Do_sub_resume w' sub_id' rest) s1)"
| "run_task E (Do_sub_resume w sub_id rest) s = backfill E w sub_id rest s"
| "run_task E (Ws_msg w req_str) s = snd (do_request E w req_str s)"

definition step :: "('e, 's) env \<Rightarrow> ('e, 's) relay \<Rightarrow> ('e, 's) relay" where
  "step E s = (case ready s of [] \<Rightarrow> s | t # q \<Rightarrow> run_task E t (s\<lparr>ready := q\<rparr>))"

text \<open>\<open>steps E n\<close> runs \<open>n\<close> callbacks.\<close>

fun steps :: "('e, 's) env \<Rightarrow> nat \<Rightarrow> ('e, 's) relay \<Rightarrow> ('e, 's) relay" where
  "steps E 0 s = s"
| "steps E (Suc n) s = steps E n (step E s)"

text \<open>A text frame arrives on a socket: the read loop of its handler is woken with it.\<close>

definition receive_text :: "int \<Rightarrow> string \<Rightarrow> ('e, 's) relay \<Rightarrow> ('e, 's) relay" where
  "receive_text w req_str s = create_task (Ws_msg w req_str) s"

section \<open>Notions used in the statements\<close>

text \<open>Every entry of the connection table holds at most \<^verbatim>\<open>max_sub\<close> subscriptions.\<close>

definition subs_bounded :: "('e, 's) relay \<Rightarrow> bool" where
  "subs_bounded s = list_all (\<lambda>(i, c). int (length (subs c)) \<le> max_sub s) (ws s)"

text \<open>
  The states a relay can be in: a request on the endpoint (upgraded or not), a text
  frame arriving on a socket, one callback of the loop, the end of a socket's read loop.
\<close>

inductive reachable :: "('e, 's) env \<Rightarrow> ('e, 's) relay \<Rightarrow> ('e, 's) relay \<Rightarrow> bool"
  for E :: "('e, 's) env" and s0 :: "('e, 's) relay" where
  initial: "reachable E s0 s0"
| connect: "reachable E s0 s \<Longrightarrow> reachable E s0 (snd (websocket_handler can_prepare s))"
| frame: "reachable E s0 s \<Longrightarrow> reachable E s0 (receive_text w req_str s)"
| callback: "reachable E s0 s \<Longrightarrow> reachable E s0 (step E s)"
| closed: "reachable E s0 s \<Longrightarrow> reachable E s0 (snd (websocket_closed w s))"

text \<open>The state in which an accepted subscription is registered.\<close>

definition registered ::
  "int \<Rightarrow> conn \<Rightarrow> json \<Rightarrow> json \<Rightarrow> ('e, 's) relay \<Rightarrow> ('e, 's) relay" where
  "registered w c sub_id fltr s =
     s\<lparr>ws := AList.update w
               (c\<lparr>subs := subs c @ [(sub_id, \<lparr>sub_ident = sub_id, sub_filter = fltr\<rparr>)]\<rparr>)
               (ws s)\<rparr>"

text \<open>
  The record of sends after the frames \<open>ds\<close>, each with its socket, have been handed to
  \<^verbatim>\<open>ws.send_str\<close> one after the other, starting from the record \<open>acc\<close>.
\<close>

fun send_each ::
  "('e, 's) env \<Rightarrow> (int \<times> json) list \<Rightarrow> (int \<times> json \<times> bool) list \<Rightarrow> (int \<times> json \<times> bool) list" where
  "send_each E [] acc = acc"
| "send_each E ((w, d) # ds) acc = send_each E ds (acc @ [(w, d, send_ok E (length acc) w d)])"

text \<open>The frames a subscription's backfill is to send: the stored events, then EOSE.\<close>

definition backfill_frames :: "int \<Rightarrow> json \<Rightarrow> json list \<Rightarrow> bool \<Rightarrow> (int \<times> json) list" where
  "backfill_frames w sub_id evts nip15 =
     map (\<lambda>e. (w, event_frame sub_id e)) evts @ (if nip15 then [(w, eose_frame sub_id)] else [])"

text \<open>The frame a scheduled \<^verbatim>\<open>_send_event\<close> task will write.\<close>

fun task_frame :: "task \<Rightarrow> (int \<times> json) list" where
  "task_frame (Send_event w sub_id evt waiter) = [(w, event_frame sub_id evt)]"
| "task_frame (Do_send w d) = [(w, d)]"
| "task_frame _ = []"


text \<open>
  Modelled from the spec: \<^verbatim>\<open>matches\<close>, which the relay takes from \<^verbatim>\<open>Event.test\<close> of
  \<^verbatim>\<open>monstr/event/event.py\<close>, not among the sources. The specification (section 3)
  defines \<^verbatim>\<open>matches(e, f)\<close> for one filter as the conjunction across all fields present
  in the filter, and \<^verbatim>\<open>matches(e, FS)\<close> for a filter set as: some filter of the set
  matches. \<open>field_ok\<close> is the test of one field, which the specification leaves to the
  event primitives. A JSON object is one filter, a JSON list is a filter set.
\<close>

definition matches_filter :: "('e \<Rightarrow> string \<Rightarrow> json \<Rightarrow> bool) \<Rightarrow> 'e \<Rightarrow> json \<Rightarrow> bool" where
  "matches_filter field_ok e f =
     (case f of JObj kvs \<Rightarrow> list_all (\<lambda>(k, v). field_ok e k v) kvs | _ \<Rightarrow> False)"

definition matches :: "('e \<Rightarrow> string \<Rightarrow> json \<Rightarrow> bool) \<Rightarrow> 'e \<Rightarrow> json \<Rightarrow> bool" where
  "matches field_ok e f =
     (case f of
        JArr fs \<Rightarrow> list_ex (matches_filter field_ok e) fs
      | _ \<Rightarrow> matches_filter field_ok e f)"

text \<open>
  \<open>grows s s'\<close>: from \<open>s\<close> to \<open>s'\<close> the ready queue and the record of sends have only
  been appended to, and \<^verbatim>\<open>enable_nip15\<close> is what it was.
\<close>

definition grows :: "('e, 's) relay \<Rightarrow> ('e, 's) relay \<Rightarrow> bool" where
  "grows s s' =
     ((\<exists>new. ready s' = ready s @ new) \<and> (\<exists>more. sends s' = sends s @ more)
      \<and> enable_nip15 s' = enable_nip15 s)"

text \<open>A recorded send without its outcome.\<close>

definition sent :: "int \<times> json \<times> bool \<Rightarrow> int \<times> json" where
  "sent r = (fst r, fst (snd r))"


text \<open>
  Where the backfill of a subscription stands, read off the ready queue \<open>q\<close>: \<open>rem\<close> are
  the frames it has still to send. Either nothing is left; or the \<^verbatim>\<open>_send_event\<close> task
  for the next event is in the queue; or the \<^verbatim>\<open>_do_send\<close> task for that event is in the
  queue ahead of the suspended \<^verbatim>\<open>_do_sub\<close>; or the suspended \<^verbatim>\<open>_do_sub\<close> is in the
  queue with the events after those already written.
\<close>

definition backfill_pending ::
  "int \<Rightarrow> json \<Rightarrow> bool \<Rightarrow> task list \<Rightarrow> (int \<times> json) list \<Rightarrow> bool" where
  "backfill_pending w sub_id nip15 q rem =
     (rem = []
      \<or> (\<exists>e rest. rem = backfill_frames w sub_id (e # rest) nip15
            \<and> (subseq [Send_event w sub_id e (Some (w, sub_id, rest))] q
               \<or> subseq [Do_send w (event_frame sub_id e), Do_sub_resume w sub_id rest] q))
      \<or> (\<exists>rest. rem = backfill_frames w sub_id rest nip15
            \<and> subseq [Do_sub_resume w sub_id rest] q))"


text \<open>
  Where a fan-out stands, read off the ready queue \<open>q\<close>: \<open>rem\<close> are the frames still to
  be written. The \<^verbatim>\<open>_send_event\<close> tasks not yet run and, behind them, the \<^verbatim>\<open>_do_send\<close>
  tasks already created are in the queue in this order.
\<close>

definition fanout_pending :: "task list \<Rightarrow> (int \<times> json) list \<Rightarrow> bool" where
  "fanout_pending q rem =
     (\<exists>ts ds. (\<forall>t \<in> set ts. \<exists>w k d. t = Send_event w k d None)
        \<and> subseq (ts @ map (\<lambda>(w, d). Do_send w d) ds) q
        \<and> rem = ds @ concat (map task_frame ts))"

section \<open>A sample deployment\<close>

text \<open>
  A small concrete environment for the worked examples below: an event is its JSON
  object, the store is the list of stored events, newest first, and refuses an event it
  already holds the way SQLite words it; \<^verbatim>\<open>json.loads\<close> knows the frames the examples
  send; \<^verbatim>\<open>Event.test\<close> is the specification's \<open>matches\<close> with every field test false, so a
  filter matches when it is \<^verbatim>\<open>{}\<close> or a list that holds \<^verbatim>\<open>{}\<close>; every write succeeds.
\<close>

definition ex_frames :: "(string \<times> json) list" where
  \<open>ex_frames =
     [(''["REQ","x"]'', JArr [JStr ''REQ'', JStr ''x'']),
      (''["REQ","x",{}]'', JArr [JStr ''REQ'', JStr ''x'', JObj []]),
      (''["REQ","d",{}]'', JArr [JStr ''REQ'', JStr ''d'', JObj []]),
      (''["CLOSE","x"]'', JArr [JStr ''CLOSE'', JStr ''x'']),
      (''["PING"]'', JArr [JStr ''PING'']),
      (''[]'', JArr []),
      (''["EVENT",{"id":"e3"}]'', JArr [JStr ''EVENT'', JObj [(''id'', JStr ''e3'')]]),
      (''["EVENT",{"id":"e1"}]'', JArr [JStr ''EVENT'', JObj [(''id'', JStr ''e1'')]])]\<close>

definition ex_loads :: "string \<Rightarrow> exn + json" where
  "ex_loads req_str =
     (case map_of ex_frames req_str of None \<Rightarrow> Inl JSONDecodeError | Some j \<Rightarrow> Inr j)"

definition ex_ev_id :: "json \<Rightarrow> string" where
  "ex_ev_id e =
     (case e of
        JObj kvs \<Rightarrow> (case map_of kvs ''id'' of Some (JStr i) \<Rightarrow> i | _ \<Rightarrow> [])
      | _ \<Rightarrow> [])"

definition ex_add_event :: "json \<Rightarrow> json list \<Rightarrow> exn option \<times> json list" where
  "ex_add_event e st =
     (if e \<in> set st then (Some (IntegrityError ''UNIQUE constraint failed: events.event_id''), st)
      else (None, e # st))"

definition ex_test :: "json \<Rightarrow> json \<Rightarrow> exn + bool" where
  "ex_test e f = Inr (matches (\<lambda>e k v. False) e f)"

definition ex_env :: "(json, json list) env" where
  "ex_env =
     \<lparr>json_loads = ex_loads,
      is_key = (\<lambda>k. length k = 64),
      from_JSON = Inr,
      is_valid = (\<lambda>e. True),
      ev_id = ex_ev_id,
      ev_kind = (\<lambda>e. 1),
      KIND_DELETE = 5,
      ev_test = ex_test,
      event_data = (\<lambda>e. e),
      add_event = ex_add_event,
      do_delete = (\<lambda>e st. (None, st)),
      get_filter = (\<lambda>f st. Inr st),
      is_NIP09 = (\<lambda>st. False),
      is_NIP16 = (\<lambda>st. True),
      pg_errors = False,
      str_of = (\<lambda>x. ''?''),
      send_ok = (\<lambda>n w d. True)\<rparr>"

definition e1 :: json where "e1 = JObj [(''id'', JStr ''e1'')]"
definition e2 :: json where "e2 = JObj [(''id'', JStr ''e2'')]"
definition e3 :: json where "e3 = JObj [(''id'', JStr ''e3'')]"

text \<open>The relay that \<^verbatim>\<open>Relay(store, enable_nip15=True)\<close> builds on a store holding two events.\<close>

definition ex_relay :: "(json, json list) relay" where
  "ex_relay =
     \<lparr>ws_id = 0, ws = [], store = [e2, e1], max_sub = 3, enable_nip15 = True,
      accept_req = [\<lambda>w e. None],
      relay_information =
        JObj [(''software'', JStr ''https://github.com/monty888/nostrpy''),
              (''version'', JStr ''0.1''),
              (''supported_nips'', JArr [JInt 1, JInt 2, JInt 11, JInt 15, JInt 16])],
      ready = [], sends = []\<rparr>"

text \<open>The sample relay after two sockets, 0 and 1, have connected.\<close>

definition ex_open :: "(json, json list) relay" where
  "ex_open = snd (websocket_handler True (snd (websocket_handler True ex_relay)))"


text \<open>
  The sample relay with subscriptions: socket 0 holds \<^verbatim>\<open>x\<close> with the filter \<^verbatim>\<open>{}\<close> and
  \<^verbatim>\<open>k\<close> with a filter on kind 7, socket 1 holds \<^verbatim>\<open>y\<close> with the filter list \<^verbatim>\<open>[{}]\<close>.
\<close>

definition ex_subscribed :: "(json, json list) relay" where
  "ex_subscribed =
     ex_open\<lparr>ws :=
       [(0, \<lparr>subs = [(JStr ''x'', \<lparr>sub_ident = JStr ''x'', sub_filter = JObj []\<rparr>),
                     (JStr ''k'', \<lparr>sub_ident = JStr ''k'',
                                  sub_filter = JArr [JObj [(''kinds'', JArr [JInt 7])]]\<rparr>)],
             sock = 0\<rparr>),
        (1, \<lparr>subs = [(JStr ''y'', \<lparr>sub_ident = JStr ''y'', sub_filter = JArr [JObj []]\<rparr>)],
             sock = 1\<rparr>)]\<rparr>"

text \<open>The sample environment with a socket 0 whose every write fails.\<close>

definition ex_env_deaf :: "(json, json list) env" where
  "ex_env_deaf = ex_env\<lparr>send_ok := (\<lambda>n w d. w \<noteq> 0)\<rparr>"

text \<open>The sample environment where the first write fails and every later one succeeds.\<close>

definition ex_env_drop :: "(json, json list) env" where
  "ex_env_drop = ex_env\<lparr>send_ok := (\<lambda>n w d. n \<noteq> 0)\<rparr>"

text \<open>The sample environment with a store that cannot write.\<close>

definition ex_env_fault :: "(json, json list) env" where
  "ex_env_fault = ex_env\<lparr>add_event := (\<lambda>e st. (Some (Exception ''database is locked''), st))\<rparr>"

text \<open>
  Socket 0 sends \<^verbatim>\<open>["REQ","x"]\<close> and socket 1 posts the event \<^verbatim>\<open>e3\<close>; both frames are
  read before the loop runs a callback.
\<close>

definition ex_race :: "(json, json list) relay" where
  \<open>ex_race = receive_text 1 ''["EVENT",{"id":"e3"}]'' (receive_text 0 ''["REQ","x"]'' ex_open)\<close>


text \<open>The sample relay built with \<^verbatim>\<open>max_sub=1\<close>, and that relay after socket 0 has connected and
  its \<^verbatim>\<open>["REQ","x",{}]\<close> has been handled.\<close>

definition ex_relay1 :: "(json, json list) relay" where
  "ex_relay1 = ex_relay\<lparr>max_sub := 1\<rparr>"

definition ex_full :: "(json, json list) relay" where
  \<open>ex_full = step ex_env (receive_text 0 ''["REQ","x",{}]'' (snd (websocket_handler True ex_relay1)))\<close>

section \<open>Unfolding the definitions\<close>


lemmas relay_defs =
  step_def do_request_def do_command_def do_sub_def do_unsub_def do_event_def
  do_event_try_def do_event_except_def check_subs_def backfill_def send_eose_def
  send_event_def do_send_def send_str_def create_task_def receive_text_def
  websocket_handler_def websocket_closed_def VALID_CMDS_def fmt_def dict_in_def
  event_frame_def eose_frame_def notice_frame_def is_integrity_def event_already_exists_def

lemmas ex_defs =
  ex_env_def ex_loads_def ex_frames_def matches_def matches_filter_def ex_ev_id_def ex_add_event_def ex_test_def ex_relay_def ex_open_def
  e1_def e2_def e3_def ex_subscribed_def ex_env_deaf_def ex_env_drop_def ex_env_fault_def
  ex_race_def

section \<open>Construction and the information document\<close>

lemma ex_relay_init:
  "Relay_init ex_env [e2, e1] None 3 None None None None True = Inr ex_relay"
  by (simp add: Relay_init_def ex_relay_def info_field_def supported_nips_def ex_env_def)

lemma sorted_supported_nips: "sorted (supported_nips E st nip15)"
  by (simp add: supported_nips_def)

lemma set_supported_nips:
  "set (supported_nips E st nip15) =
     {1, 2, 11} \<union> (if nip15 then {15} else {}) \<union> (if is_NIP09 E st then {9} else {})
       \<union> (if is_NIP16 E st then {16} else {})"
  by (auto simp: supported_nips_def)

lemma Relay_init_Inr_pubkey:
  assumes "Relay_init E st h m name descr pubkey contact nip15 = Inr r"
  shows "pubkey = None"
  using assms by (cases pubkey) (auto simp: Relay_init_def Let_def split: if_splits)

lemma Relay_init_information:
  assumes "Relay_init E st h m name descr pubkey contact nip15 = Inr r"
  shows "\<exists>more. relay_information r =
           JObj ([(''software'', JStr ''https://github.com/monty888/nostrpy''),
                  (''version'', JStr ''0.1''),
                  (''supported_nips'', JArr (map JInt (supported_nips E st nip15)))] @ more)"
  using assms by (cases pubkey) (auto simp: Relay_init_def Let_def split: if_splits)

section \<open>Which fields each function touches\<close>

lemma send_str_eq:
  "send_str E w d s =
     (if send_ok E (length (sends s)) w d then None else Some ConnectionError,
      s\<lparr>sends := sends s @ [(w, d, send_ok E (length (sends s)) w d)]\<rparr>)"
  by (simp add: send_str_def Let_def)

lemma do_send_eq:
  "do_send E w d s = s\<lparr>sends := sends s @ [(w, d, send_ok E (length (sends s)) w d)]\<rparr>"
  by (simp add: do_send_def send_str_eq)

lemma check_conn_subs_fields:
  "check_conn_subs E evt w d s = (x, s') \<Longrightarrow>
     ws s' = ws s \<and> max_sub s' = max_sub s \<and> sends s' = sends s \<and> store s' = store s
     \<and> enable_nip15 s' = enable_nip15 s \<and> ws_id s' = ws_id s"
proof (induction d arbitrary: s)
  case Nil
  then show ?case by simp
next
  case (Cons p d)
  obtain k sb where p: "p = (k, sb)" by (cases p)
  show ?case
  proof (cases "ev_test E evt (sub_filter sb)")
    case (Inl e)
    with Cons.prems p show ?thesis by simp
  next
    case (Inr b)
    show ?thesis
    proof (cases b)
      case True
      with Cons.prems p Inr have
        "check_conn_subs E evt w d (create_task (Send_event w k (event_data E evt) None) s) = (x, s')"
        by simp
      from Cons.IH [OF this] show ?thesis by (simp add: create_task_def)
    next
      case False
      with Cons.prems p Inr have "check_conn_subs E evt w d s = (x, s')" by simp
      from Cons.IH [OF this] show ?thesis .
    qed
  qed
qed

lemma check_subs_loop_fields:
  "check_subs_loop E evt cs s = (x, s') \<Longrightarrow>
     ws s' = ws s \<and> max_sub s' = max_sub s \<and> sends s' = sends s \<and> store s' = store s
     \<and> enable_nip15 s' = enable_nip15 s \<and> ws_id s' = ws_id s"
proof (induction cs arbitrary: s)
  case Nil
  then show ?case by simp
next
  case (Cons p cs)
  obtain i c where p: "p = (i, c)" by (cases p)
  obtain y s1 where inner: "check_conn_subs E evt (sock c) (subs c) s = (y, s1)"
    by (cases "check_conn_subs E evt (sock c) (subs c) s")
  note f1 = check_conn_subs_fields [OF inner]
  show ?case
  proof (cases y)
    case None
    with Cons.prems p inner have "check_subs_loop E evt cs s1 = (x, s')" by simp
    from Cons.IH [OF this] f1 show ?thesis by simp
  next
    case (Some e)
    with Cons.prems p inner have "s' = s1" by simp
    with f1 show ?thesis by simp
  qed
qed

lemma check_subs_fields:
  "check_subs E evt s = (x, s') \<Longrightarrow>
     ws s' = ws s \<and> max_sub s' = max_sub s \<and> sends s' = sends s \<and> store s' = store s
     \<and> enable_nip15 s' = enable_nip15 s \<and> ws_id s' = ws_id s"
  unfolding check_subs_def by (rule check_subs_loop_fields)


lemma check_conn_subs_ready:
  "check_conn_subs E evt w d s = (x, s') \<Longrightarrow>
     \<exists>new. ready s' = ready s @ new
       \<and> (\<forall>t \<in> set new. \<exists>(k, sb) \<in> set d.
             t = Send_event w k (event_data E evt) None
             \<and> ev_test E evt (sub_filter sb) = Inr True)"
proof (induction d arbitrary: s)
  case Nil
  then show ?case by simp
next
  case (Cons p d)
  obtain k sb where p: "p = (k, sb)" by (cases p)
  show ?case
  proof (cases "ev_test E evt (sub_filter sb)")
    case (Inl e)
    with Cons.prems p show ?thesis by simp
  next
    case (Inr b)
    show ?thesis
    proof (cases b)
      case True
      let ?t = "Send_event w k (event_data E evt) None"
      from Cons.prems p Inr True have
        "check_conn_subs E evt w d (create_task ?t s) = (x, s')"
        by simp
      from Cons.IH [OF this] obtain new where
        n: "ready s' = ready (create_task ?t s) @ new"
        "\<forall>t \<in> set new. \<exists>(k, sb) \<in> set d.
             t = Send_event w k (event_data E evt) None
             \<and> ev_test E evt (sub_filter sb) = Inr True"
        by blast
      from n(1) have "ready s' = ready s @ (?t # new)" by (simp add: create_task_def)
      moreover from n(2) p Inr True have
        "\<forall>t \<in> set (?t # new). \<exists>(k, sb) \<in> set (p # d).
             t = Send_event w k (event_data E evt) None
             \<and> ev_test E evt (sub_filter sb) = Inr True"
        by auto
      ultimately show ?thesis by blast
    next
      case False
      with Cons.prems p Inr have "check_conn_subs E evt w d s = (x, s')" by simp
      from Cons.IH [OF this] show ?thesis by auto
    qed
  qed
qed

lemma check_subs_loop_ready:
  "check_subs_loop E evt cs s = (x, s') \<Longrightarrow>
     \<exists>new. ready s' = ready s @ new
       \<and> (\<forall>t \<in> set new. \<exists>(i, c) \<in> set cs. \<exists>(k, sb) \<in> set (subs c).
             t = Send_event (sock c) k (event_data E evt) None
             \<and> ev_test E evt (sub_filter sb) = Inr True)"
proof (induction cs arbitrary: s)
  case Nil
  then show ?case by simp
next
  case (Cons p cs)
  obtain i c where p: "p = (i, c)" by (cases p)
  obtain y s1 where inner: "check_conn_subs E evt (sock c) (subs c) s = (y, s1)"
    by (cases "check_conn_subs E evt (sock c) (subs c) s")
  from check_conn_subs_ready [OF inner] obtain new1 where
    n1: "ready s1 = ready s @ new1"
    "\<forall>t \<in> set new1. \<exists>(k, sb) \<in> set (subs c).
        t = Send_event (sock c) k (event_data E evt) None
        \<and> ev_test E evt (sub_filter sb) = Inr True"
    by blast
  from n1(2) p have here:
    "\<forall>t \<in> set new1. \<exists>(i, c) \<in> set (p # cs). \<exists>(k, sb) \<in> set (subs c).
        t = Send_event (sock c) k (event_data E evt) None
        \<and> ev_test E evt (sub_filter sb) = Inr True"
    by auto
  show ?case
  proof (cases y)
    case None
    with Cons.prems p inner have "check_subs_loop E evt cs s1 = (x, s')" by simp
    from Cons.IH [OF this] obtain new2 where
      n2: "ready s' = ready s1 @ new2"
      "\<forall>t \<in> set new2. \<exists>(i, c) \<in> set cs. \<exists>(k, sb) \<in> set (subs c).
          t = Send_event (sock c) k (event_data E evt) None
          \<and> ev_test E evt (sub_filter sb) = Inr True"
      by blast
    from n2(2) have there:
      "\<forall>t \<in> set new2. \<exists>(i, c) \<in> set (p # cs). \<exists>(k, sb) \<in> set (subs c).
          t = Send_event (sock c) k (event_data E evt) None
          \<and> ev_test E evt (sub_filter sb) = Inr True"
      by auto
    from n1(1) n2(1) have "ready s' = ready s @ (new1 @ new2)" by simp
    moreover from here there have
      "\<forall>t \<in> set (new1 @ new2). \<exists>(i, c) \<in> set (p # cs). \<exists>(k, sb) \<in> set (subs c).
          t = Send_event (sock c) k (event_data E evt) None
          \<and> ev_test E evt (sub_filter sb) = Inr True"
      by auto
    ultimately show ?thesis by blast
  next
    case (Some e)
    with Cons.prems p inner have "s' = s1" by simp
    with n1(1) here show ?thesis by blast
  qed
qed

lemma ex_open_eq:
  "ex_open = ex_relay\<lparr>ws_id := 2, ws := [(0, \<lparr>subs = [], sock = 0\<rparr>), (1, \<lparr>subs = [], sock = 1\<rparr>)]\<rparr>"
  by (simp add: ex_open_def websocket_handler_def Let_def ex_relay_def)

lemma do_command_empty:
  "do_command E w (JArr []) s = (Some (NostrCommandException ''No command received''), s)"
  by (simp add: do_command_def)

lemma do_command_unsupported:
  "cmd \<notin> set VALID_CMDS \<Longrightarrow>
   do_command E w (JArr (cmd # rest)) s =
     (Some (NostrCommandException (''unsupported command '' @ fmt E cmd)), s)"
  by (simp add: do_command_def)

lemma do_request_decode_error:
  "req_str \<noteq> [] \<Longrightarrow> json_loads E req_str = Inl JSONDecodeError \<Longrightarrow>
   do_request E w req_str s = send_str E w (notice_frame ''unable to decode command string'') s"
  by (simp add: do_request_def)

lemma do_request_raised:
  "req_str \<noteq> [] \<Longrightarrow> json_loads E req_str = Inr as_json \<Longrightarrow>
   do_command E w as_json s = (Some (NostrCommandException m), s') \<Longrightarrow>
   do_request E w req_str s = send_str E w (notice_frame m) s'"
  by (simp add: do_request_def)

lemma do_request_returned:
  "req_str \<noteq> [] \<Longrightarrow> json_loads E req_str = Inr as_json \<Longrightarrow>
   do_command E w as_json s = (None, s') \<Longrightarrow>
   do_request E w req_str s = (None, s')"
  by (simp add: do_request_def)

lemma do_request_uncaught:
  assumes "req_str \<noteq> []" "json_loads E req_str = Inl e" "e \<noteq> JSONDecodeError"
    "\<forall>m. e \<noteq> NostrCommandException m"
  shows "do_request E w req_str s = (Some e, s)"
  using assms by (cases e) (simp_all add: do_request_def)

section \<open>Dicts\<close>

lemma dict_set_absent: "\<not> dict_in k d \<Longrightarrow> dict_set k v d = d @ [(k, v)]"
  by (induction d) (auto simp: dict_in_def)

lemma length_dict_del: "length (dict_del k d) \<le> length d"
  by (induction d) auto

lemma list_all_update:
  "list_all (\<lambda>(i, c). Q c) xs \<Longrightarrow> Q v \<Longrightarrow> list_all (\<lambda>(i, c). Q c) (AList.update k v xs)"
  by (induction xs) auto

lemma list_all_delete:
  "list_all (\<lambda>(i, c). Q c) xs \<Longrightarrow> list_all (\<lambda>(i, c). Q c) (AList.delete k xs)"
  by (induction xs) auto

lemma list_all_map_of:
  "list_all (\<lambda>(i, c). Q c) xs \<Longrightarrow> map_of xs k = Some v \<Longrightarrow> Q v"
  by (induction xs) (auto split: if_splits)

section \<open>Subscribing\<close>

lemma backfill_fields:
  "ws (backfill E w sub_id evts s) = ws s \<and> max_sub (backfill E w sub_id evts s) = max_sub s
   \<and> store (backfill E w sub_id evts s) = store s"
  by (cases evts) (simp_all add: backfill_def send_eose_def do_send_eq create_task_def)

lemma do_sub_short:
  "length req_json \<le> 1 \<Longrightarrow>
   do_sub E req_json w s = (Some (NostrCommandException ''REQ command missing sub_id''), s)"
  by (simp add: do_sub_def)

lemma do_sub_duplicate:
  assumes "map_of (ws s) w = Some c" "py_key sub_id = Some k" "dict_in sub_id (subs c)"
  shows "do_sub E (verb # sub_id # fs) w s =
     (Some (NostrCommandException
        (''REQ command for sub_id that already exists - '' @ fmt E sub_id)), s)"
  using assms by (simp add: do_sub_def Let_def)

lemma do_sub_limit:
  assumes "map_of (ws s) w = Some c" "py_key sub_id = Some k" "\<not> dict_in sub_id (subs c)"
    "max_sub s \<le> int (length (subs c))"
  shows "do_sub E (verb # sub_id # fs) w s =
     (Some (NostrCommandException
        (''REQ new sub_id '' @ fmt E sub_id
           @ '' not allowed, already at max subs='' @ str_int (max_sub s))), s)"
  using assms by (simp add: do_sub_def Let_def)

lemma do_sub_accepted:
  assumes "map_of (ws s) w = Some c" "py_key sub_id = Some k" "\<not> dict_in sub_id (subs c)"
    "int (length (subs c)) < max_sub s"
  shows "do_sub E (verb # sub_id # fs) w s =
     (case get_filter E (if fs = [] then JObj [] else JArr fs) (store s) of
        Inl e \<Rightarrow> (Some e, registered w c sub_id (if fs = [] then JObj [] else JArr fs) s)
      | Inr evts \<Rightarrow>
          (None, backfill E w sub_id evts
                   (registered w c sub_id (if fs = [] then JObj [] else JArr fs) s)))"
  unfolding registered_def using assms
  by (cases fs) (simp_all add: do_sub_def Let_def dict_set_absent split: sum.splits)

lemma do_sub_bounded:
  assumes "subs_bounded s"
  shows "subs_bounded (snd (do_sub E req_json w s)) \<and> max_sub (snd (do_sub E req_json w s)) = max_sub s"
proof (cases "length req_json \<le> 1")
  case True
  with assms show ?thesis by (simp add: do_sub_short)
next
  case False
  then obtain verb sub_id fs where req: "req_json = verb # sub_id # fs"
    by (cases req_json; cases "tl req_json") auto
  show ?thesis
  proof (cases "map_of (ws s) w")
    case None
    with assms req show ?thesis by (simp add: do_sub_def Let_def)
  next
    case (Some c)
    show ?thesis
    proof (cases "py_key sub_id")
      case None
      with assms req Some show ?thesis by (simp add: do_sub_def Let_def)
    next
      case hashable: (Some k)
      show ?thesis
      proof (cases "dict_in sub_id (subs c)")
        case True
        with assms do_sub_duplicate [OF Some hashable True] req show ?thesis by simp
      next
        case fresh: False
        show ?thesis
        proof (cases "max_sub s \<le> int (length (subs c))")
          case True
          with assms do_sub_limit [OF Some hashable fresh True] req show ?thesis by simp
        next
          case False
          then have room: "int (length (subs c)) < max_sub s" by simp
          let ?f = "if fs = [] then JObj [] else JArr fs"
          let ?s1 = "registered w c sub_id ?f s"
          have b1: "subs_bounded ?s1"
            using assms room
            by (auto simp: subs_bounded_def registered_def intro!: list_all_update)
          have m1: "max_sub ?s1 = max_sub s" by (simp add: registered_def)
          show ?thesis
          proof (cases "get_filter E ?f (store s)")
            case (Inl e)
            with do_sub_accepted [OF Some hashable fresh room, of E verb fs] req b1 m1
            show ?thesis by simp
          next
            case (Inr evts)
            with do_sub_accepted [OF Some hashable fresh room, of E verb fs] req
            have "snd (do_sub E req_json w s) = backfill E w sub_id evts ?s1" by simp
            with b1 m1 backfill_fields [of E w sub_id evts ?s1] show ?thesis
              by (simp add: subs_bounded_def)
          qed
        qed
      qed
    qed
  qed
qed

lemma do_unsub_bounded:
  assumes "subs_bounded s"
  shows "subs_bounded (snd (do_unsub E req_json w s))
         \<and> max_sub (snd (do_unsub E req_json w s)) = max_sub s"
proof (cases "map_of (ws s) w")
  case None
  with assms show ?thesis by (simp add: do_unsub_def Let_def)
next
  case (Some c)
  from list_all_map_of [OF assms [unfolded subs_bounded_def] Some]
  have c: "int (length (subs c)) \<le> max_sub s" .
  have "int (length (dict_del k (subs c))) \<le> max_sub s" for k
    using c length_dict_del [of k "subs c"] by linarith
  then have "list_all (\<lambda>(i, c). int (length (subs c)) \<le> max_sub s)
          (AList.update w (c\<lparr>subs := dict_del k (subs c)\<rparr>) (ws s))" for k
    using assms by (auto simp: subs_bounded_def intro!: list_all_update)
  with assms Some show ?thesis
    by (simp add: do_unsub_def Let_def subs_bounded_def)
qed


section \<open>Posting an event\<close>

lemma do_event_except_state: "snd (do_event_except E evt e s) = s"
  by (simp add: do_event_except_def Let_def)

lemma do_event_try_fields:
  assumes "do_event_try E evt s = (x, s')"
  shows "ws s' = ws s \<and> max_sub s' = max_sub s \<and> sends s' = sends s
         \<and> enable_nip15 s' = enable_nip15 s \<and> ws_id s' = ws_id s"
proof (cases "add_event E evt (store s)")
  case (Pair r st1)
  show ?thesis
  proof (cases r)
    case (Some e)
    with assms Pair show ?thesis by (auto simp: do_event_try_def)
  next
    case None
    show ?thesis
    proof (cases "ev_kind E evt = KIND_DELETE E")
      case True
      obtain r2 st2 where d: "do_delete E evt st1 = (r2, st2)" by (cases "do_delete E evt st1")
      show ?thesis
      proof (cases r2)
        case (Some e)
        with assms Pair None True d show ?thesis by (auto simp: do_event_try_def)
      next
        case n2: None
        with assms Pair None True d have "check_subs E evt (s\<lparr>store := st2\<rparr>) = (x, s')"
          by (simp add: do_event_try_def)
        from check_subs_fields [OF this] show ?thesis by simp
      qed
    next
      case False
      with assms Pair None have "check_subs E evt (s\<lparr>store := st1\<rparr>) = (x, s')"
        by (simp add: do_event_try_def)
      from check_subs_fields [OF this] show ?thesis by simp
    qed
  qed
qed

lemma do_event_fields:
  assumes "do_event E req_json w s = (x, s')"
  shows "ws s' = ws s \<and> max_sub s' = max_sub s \<and> sends s' = sends s
         \<and> enable_nip15 s' = enable_nip15 s \<and> ws_id s' = ws_id s"
proof (cases "length req_json \<le> 1")
  case True
  with assms show ?thesis by (simp add: do_event_def)
next
  case long: False
  show ?thesis
  proof (cases "from_JSON E (req_json ! 1)")
    case (Inl e)
    with assms long show ?thesis by (simp add: do_event_def)
  next
    case (Inr evt)
    show ?thesis
    proof (cases "is_valid E evt \<and> accept_post (accept_req s) w evt = None")
      case False
      with assms long Inr show ?thesis
        by (auto simp: do_event_def split: option.splits if_splits)
    next
      case True
      obtain y s1 where t: "do_event_try E evt s = (y, s1)" by (cases "do_event_try E evt s")
      note f = do_event_try_fields [OF t]
      show ?thesis
      proof (cases y)
        case None
        with assms long Inr True t have "s' = s1" by (simp add: do_event_def)
        with f show ?thesis by simp
      next
        case (Some e)
        with assms long Inr True t have "do_event_except E evt e s1 = (x, s')"
          by (simp add: do_event_def)
        then have "s' = s1" using do_event_except_state [of E evt e s1] by simp
        with f show ?thesis by simp
      qed
    qed
  qed
qed

section \<open>Every transition keeps the bound\<close>

lemma do_command_bounded:
  assumes "subs_bounded s"
  shows "subs_bounded (snd (do_command E w as_json s))
         \<and> max_sub (snd (do_command E w as_json s)) = max_sub s"
proof -
  have ev: "subs_bounded (snd (do_event E r w s)) \<and> max_sub (snd (do_event E r w s)) = max_sub s"
    for r
  proof -
    obtain x s' where e: "do_event E r w s = (x, s')" by (cases "do_event E r w s")
    from do_event_fields [OF e] assms e show ?thesis by (simp add: subs_bounded_def)
  qed
  show ?thesis
    using assms ev do_sub_bounded [OF assms] do_unsub_bounded [OF assms]
    by (simp add: do_command_def split: sum.splits)
qed

lemma send_str_bounded:
  "subs_bounded s \<Longrightarrow> subs_bounded (snd (send_str E w d s))
     \<and> max_sub (snd (send_str E w d s)) = max_sub s"
  by (simp add: send_str_eq subs_bounded_def)

lemma do_request_bounded:
  assumes "subs_bounded s"
  shows "subs_bounded (snd (do_request E w req_str s))
         \<and> max_sub (snd (do_request E w req_str s)) = max_sub s"
proof (cases "req_str = []")
  case True
  with assms show ?thesis by (simp add: do_request_def)
next
  case ne: False
  show ?thesis
  proof (cases "json_loads E req_str")
    case (Inl e)
    with ne assms send_str_bounded [OF assms] show ?thesis
      by (cases e) (simp_all add: do_request_def)
  next
    case (Inr as_json)
    obtain x s1 where c: "do_command E w as_json s = (x, s1)"
      by (cases "do_command E w as_json s")
    from do_command_bounded [OF assms, of E w as_json] c
    have b1: "subs_bounded s1" and m1: "max_sub s1 = max_sub s" by simp_all
    from ne Inr c send_str_bounded [OF b1] m1 b1 show ?thesis
      by (cases x; simp add: do_request_def split: exn.splits)
  qed
qed

lemma run_task_bounded:
  assumes "subs_bounded s"
  shows "subs_bounded (run_task E t s) \<and> max_sub (run_task E t s) = max_sub s"
proof (cases t)
  case (Do_send w d)
  with assms show ?thesis by (simp add: do_send_eq subs_bounded_def)
next
  case (Send_event w sub_id evt waiter)
  with assms show ?thesis
    by (cases waiter) (auto simp: send_event_def create_task_def subs_bounded_def)
next
  case (Do_sub_resume w sub_id rest)
  with assms backfill_fields [of E w sub_id rest s] show ?thesis
    by (simp add: subs_bounded_def)
next
  case (Ws_msg w req_str)
  with do_request_bounded [OF assms] show ?thesis by simp
qed

lemma step_bounded:
  assumes "subs_bounded s"
  shows "subs_bounded (step E s) \<and> max_sub (step E s) = max_sub s"
proof (cases "ready s")
  case Nil
  with assms show ?thesis by (simp add: step_def)
next
  case (Cons t q)
  from assms have "subs_bounded (s\<lparr>ready := q\<rparr>)" by (simp add: subs_bounded_def)
  from run_task_bounded [OF this, of E t] Cons show ?thesis by (simp add: step_def)
qed

lemma websocket_handler_bounded:
  assumes "subs_bounded s" "0 \<le> max_sub s"
  shows "subs_bounded (snd (websocket_handler b s))
         \<and> max_sub (snd (websocket_handler b s)) = max_sub s"
  using assms
  by (auto simp: websocket_handler_def Let_def subs_bounded_def intro!: list_all_update)

lemma websocket_closed_bounded:
  assumes "subs_bounded s"
  shows "subs_bounded (snd (websocket_closed w s))
         \<and> max_sub (snd (websocket_closed w s)) = max_sub s"
  using assms
  by (auto simp: websocket_closed_def subs_bounded_def split: option.splits
           intro!: list_all_delete)

lemma reachable_bounded:
  assumes "reachable E s0 s" "subs_bounded s0" "0 \<le> max_sub s0"
  shows "subs_bounded s \<and> max_sub s = max_sub s0"
  using assms
proof (induction rule: reachable.induct)
  case initial
  then show ?case by simp
next
  case (connect s can_prepare)
  with websocket_handler_bounded [of s can_prepare] show ?case by simp
next
  case (frame s w req_str)
  then show ?case by (auto simp: receive_text_def create_task_def subs_bounded_def)
next
  case (callback s)
  with step_bounded [of s E] show ?case by simp
next
  case (closed s w)
  with websocket_closed_bounded [of s w] show ?case by simp
qed

lemma Relay_init_fields:
  assumes "Relay_init E st h m name descr pubkey contact nip15 = Inr r"
  shows "ws r = [] \<and> max_sub r = m \<and> store r = st \<and> enable_nip15 r = nip15
         \<and> ready r = [] \<and> sends r = [] \<and> ws_id r = 0"
  using assms by (cases pubkey) (auto simp: Relay_init_def Let_def split: if_splits)

section \<open>Runs of the event loop\<close>

lemma steps_add: "steps E (a + b) s = steps E b (steps E a s)"
  by (induction a arbitrary: s) auto

lemma step_Do_send:
  "ready s = Do_send w d # q \<Longrightarrow>
   step E s = s\<lparr>ready := q, sends := sends s @ [(w, d, send_ok E (length (sends s)) w d)]\<rparr>"
  by (simp add: step_def do_send_eq)

lemma step_Send_event_None:
  "ready s = Send_event w k d None # q \<Longrightarrow>
   step E s = s\<lparr>ready := q @ [Do_send w (event_frame k d)]\<rparr>"
  by (simp add: step_def send_event_def create_task_def)

lemma step_Send_event_Some:
  "ready s = Send_event w k d (Some (w', k', rest)) # q \<Longrightarrow>
   step E s = s\<lparr>ready := q @ [Do_send w (event_frame k d), Do_sub_resume w' k' rest]\<rparr>"
  by (simp add: step_def send_event_def create_task_def)

lemma step_Do_sub_resume:
  "ready s = Do_sub_resume w k rest # q \<Longrightarrow>
   step E s = backfill E w k rest (s\<lparr>ready := q\<rparr>)"
  by (simp add: step_def)

lemma run_do_sends:
  "ready s = map (\<lambda>(w, d). Do_send w d) ds @ q \<Longrightarrow>
   steps E (length ds) s = s\<lparr>ready := q, sends := send_each E ds (sends s)\<rparr>"
proof (induction ds arbitrary: s)
  case Nil
  then show ?case by simp
next
  case (Cons p ds)
  obtain w d where p: "p = (w, d)" by (cases p)
  let ?q = "map (\<lambda>(w, d). Do_send w d) ds @ q"
  let ?s1 = "s\<lparr>ready := ?q, sends := sends s @ [(w, d, send_ok E (length (sends s)) w d)]\<rparr>"
  from Cons.prems p have "ready s = Do_send w d # ?q" by simp
  then have "step E s = ?s1" by (rule step_Do_send)
  moreover have "steps E (length ds) ?s1 = ?s1\<lparr>ready := q, sends := send_each E ds (sends ?s1)\<rparr>"
    by (rule Cons.IH) simp
  ultimately show ?case using p by simp
qed

lemma run_send_events:
  "ready s = ts @ q \<Longrightarrow> \<forall>t \<in> set ts. \<exists>w k d. t = Send_event w k d None \<Longrightarrow>
   steps E (length ts) s =
     s\<lparr>ready := q @ map (\<lambda>(w, d). Do_send w d) (concat (map task_frame ts))\<rparr>"
proof (induction ts arbitrary: s q)
  case Nil
  then show ?case by simp
next
  case (Cons t ts)
  then obtain w k d where t: "t = Send_event w k d None" by auto
  let ?s1 = "s\<lparr>ready := (ts @ q) @ [Do_send w (event_frame k d)]\<rparr>"
  from Cons.prems(1) t have "ready s = Send_event w k d None # (ts @ q)" by simp
  then have s1: "step E s = ?s1" by (rule step_Send_event_None)
  have "steps E (length ts) ?s1 =
      ?s1\<lparr>ready := (q @ [Do_send w (event_frame k d)])
                  @ map (\<lambda>(w, d). Do_send w d) (concat (map task_frame ts))\<rparr>"
    using Cons.prems(2) by (intro Cons.IH) simp_all
  with s1 t show ?case by simp
qed

lemma run_fanout:
  assumes "ready s = ts" "\<forall>t \<in> set ts. \<exists>w k d. t = Send_event w k d None"
  shows "steps E (2 * length ts) s =
     s\<lparr>ready := [], sends := send_each E (concat (map task_frame ts)) (sends s)\<rparr>"
proof -
  let ?fs = "concat (map task_frame ts)"
  have len: "length ?fs = length ts"
    using assms(2) by (induction ts) auto
  let ?s1 = "s\<lparr>ready := map (\<lambda>(w, d). Do_send w d) ?fs\<rparr>"
  from run_send_events [of s ts "[]" E] assms
  have a: "steps E (length ts) s = ?s1" by simp
  have b: "steps E (length ?fs) ?s1 = ?s1\<lparr>ready := [], sends := send_each E ?fs (sends ?s1)\<rparr>"
    by (rule run_do_sends) simp
  have "steps E (2 * length ts) s = steps E (length ts) (steps E (length ts) s)"
    using steps_add [of E "length ts" "length ts" s] by (simp add: mult_2)
  with a b len show ?thesis by simp
qed

lemma backfill_run:
  "ready s = [] \<Longrightarrow>
   steps E (3 * length evts) (backfill E w sub_id evts s) =
     s\<lparr>sends := send_each E (backfill_frames w sub_id evts (enable_nip15 s)) (sends s)\<rparr>"
proof (induction evts arbitrary: s)
  case Nil
  then show ?case
    by (simp add: backfill_def backfill_frames_def send_eose_def do_send_eq)
next
  case (Cons e evts)
  let ?b = "backfill E w sub_id (e # evts) s"
  let ?ok = "send_ok E (length (sends s)) w (event_frame sub_id e)"
  let ?s' = "s\<lparr>sends := sends s @ [(w, event_frame sub_id e, ?ok)]\<rparr>"
  have r0: "ready ?b = [Send_event w sub_id e (Some (w, sub_id, evts))]"
    using Cons.prems by (simp add: backfill_def create_task_def)
  have b_eq: "?b = s\<lparr>ready := [Send_event w sub_id e (Some (w, sub_id, evts))]\<rparr>"
    using Cons.prems by (simp add: backfill_def create_task_def)
  have s1: "step E ?b = s\<lparr>ready := [Do_send w (event_frame sub_id e), Do_sub_resume w sub_id evts]\<rparr>"
    using step_Send_event_Some [OF r0, of E] by (simp add: b_eq)
  have idle: "t\<lparr>ready := []\<rparr> = t" if "ready t = []" for t :: "('a, 'b) relay"
    using that by (cases t) simp
  have s2: "step E (step E ?b) =
      s\<lparr>ready := [Do_sub_resume w sub_id evts],
        sends := sends s @ [(w, event_frame sub_id e, ?ok)]\<rparr>"
    unfolding s1 by (subst step_Do_send [where q = "[Do_sub_resume w sub_id evts]"]) simp_all
  have s3: "step E (step E (step E ?b)) = backfill E w sub_id evts ?s'"
    unfolding s2
    by (subst step_Do_sub_resume [where q = "[]"]) (simp_all add: idle Cons.prems)
  have "steps E (3 * length (e # evts)) ?b = steps E (3 * length evts) (step E (step E (step E ?b)))"
    by (simp add: numeral_3_eq_3)
  also have "\<dots> = ?s'\<lparr>sends := send_each E (backfill_frames w sub_id evts (enable_nip15 ?s')) (sends ?s')\<rparr>"
    unfolding s3 using Cons.prems by (intro Cons.IH) simp
  finally show ?case by (simp add: backfill_frames_def)
qed

section \<open>Queue and record only grow\<close>

lemma grows_refl: "grows s s"
  by (simp add: grows_def)

lemma grows_trans: "grows s s' \<Longrightarrow> grows s' s'' \<Longrightarrow> grows s s''"
  by (auto simp: grows_def)

lemma grows_send_str: "grows s (snd (send_str E w d s))"
  by (simp add: grows_def send_str_eq)

lemma grows_backfill: "grows s (backfill E w sub_id evts s)"
  by (cases evts) (simp_all add: grows_def backfill_def send_eose_def do_send_eq create_task_def)

lemma grows_check_subs:
  assumes "check_subs E evt s = (x, s')"
  shows "grows s s'"
proof -
  from check_subs_loop_ready [OF assms [unfolded check_subs_def]]
  obtain new where "ready s' = ready s @ new" by blast
  with check_subs_fields [OF assms] show ?thesis by (simp add: grows_def)
qed

lemma grows_do_event_try:
  assumes "do_event_try E evt s = (x, s')"
  shows "grows s s'"
proof -
  have via: "grows s s'" if "check_subs E evt (s\<lparr>store := st\<rparr>) = (x, s')" for st
    using grows_check_subs [OF that] by (simp add: grows_def)
  obtain r st1 where a: "add_event E evt (store s) = (r, st1)"
    by (cases "add_event E evt (store s)")
  obtain r2 st2 where d: "do_delete E evt st1 = (r2, st2)" by (cases "do_delete E evt st1")
  show ?thesis
  proof (cases r)
    case (Some e)
    with assms a show ?thesis by (auto simp: do_event_try_def grows_def)
  next
    case None
    show ?thesis
    proof (cases "ev_kind E evt = KIND_DELETE E")
      case True
      show ?thesis
      proof (cases r2)
        case (Some e)
        with assms a None True d show ?thesis by (auto simp: do_event_try_def grows_def)
      next
        case n2: None
        with assms a None True d show ?thesis by (intro via [of st2]) (simp add: do_event_try_def)
      qed
    next
      case False
      with assms a None show ?thesis by (intro via [of st1]) (simp add: do_event_try_def)
    qed
  qed
qed

lemma grows_do_event: "grows s (snd (do_event E req_json w s))"
proof (cases "length req_json \<le> 1")
  case True
  then show ?thesis by (simp add: do_event_def grows_refl)
next
  case long: False
  show ?thesis
  proof (cases "from_JSON E (req_json ! 1)")
    case (Inl e)
    with long show ?thesis by (simp add: do_event_def grows_refl)
  next
    case (Inr evt)
    show ?thesis
    proof (cases "is_valid E evt \<and> accept_post (accept_req s) w evt = None")
      case False
      with long Inr show ?thesis
        by (auto simp: do_event_def grows_refl split: option.splits if_splits)
    next
      case True
      obtain y s1 where t: "do_event_try E evt s = (y, s1)" by (cases "do_event_try E evt s")
      note g = grows_do_event_try [OF t]
      show ?thesis
      proof (cases y)
        case None
        with long Inr True t g show ?thesis by (simp add: do_event_def)
      next
        case (Some e)
        with long Inr True t have "snd (do_event E req_json w s) = snd (do_event_except E evt e s1)"
          by (simp add: do_event_def)
        with g show ?thesis by (simp add: do_event_except_state)
      qed
    qed
  qed
qed

lemma grows_do_sub: "grows s (snd (do_sub E req_json w s))"
proof -
  have reg: "grows s (s\<lparr>ws := x\<rparr>)" for x by (simp add: grows_def)
  have g: "grows s (backfill E w' k evts (s\<lparr>ws := x\<rparr>))" for w' k evts x
    by (rule grows_trans [OF reg grows_backfill])
  show ?thesis
    by (simp add: do_sub_def Let_def grows_refl reg g split: option.splits sum.splits)
qed

lemma grows_do_unsub: "grows s (snd (do_unsub E req_json w s))"
  by (simp add: do_unsub_def Let_def grows_def split: option.splits)

lemma grows_do_command: "grows s (snd (do_command E w as_json s))"
  by (simp add: do_command_def grows_refl grows_do_event grows_do_sub grows_do_unsub
      split: sum.splits)

lemma grows_do_request: "grows s (snd (do_request E w req_str s))"
proof -
  have notice: "grows s (snd (send_str E w d s'))" if "grows s s'" for s' d
    by (rule grows_trans [OF that grows_send_str])
  obtain x s1 where c:
    "(case json_loads E req_str of Inl e \<Rightarrow> (Some e, s) | Inr j \<Rightarrow> do_command E w j s) = (x, s1)"
    by (cases "case json_loads E req_str of Inl e \<Rightarrow> (Some e, s) | Inr j \<Rightarrow> do_command E w j s")
  have g1: "grows s s1"
  proof (cases "json_loads E req_str")
    case (Inl e)
    with c show ?thesis by (simp add: grows_refl)
  next
    case (Inr j)
    with c grows_do_command [of s E w j] show ?thesis by simp
  qed
  show ?thesis
  proof (cases "req_str = []")
    case True
    then show ?thesis by (simp add: do_request_def grows_refl)
  next
    case False
    show ?thesis
    proof (cases x)
      case None
      with False c g1 show ?thesis by (simp add: do_request_def)
    next
      case (Some e)
      with False c g1 notice [OF g1] show ?thesis
        by (cases e) (simp_all add: do_request_def)
    qed
  qed
qed

lemma grows_run_task: "grows s (run_task E t s)"
proof (cases t)
  case (Do_send w d)
  then show ?thesis by (simp add: do_send_eq grows_def)
next
  case (Send_event w sub_id evt waiter)
  then show ?thesis
    by (cases waiter) (auto simp: send_event_def create_task_def grows_def)
next
  case (Do_sub_resume w sub_id rest)
  then show ?thesis by (simp add: grows_backfill)
next
  case (Ws_msg w req_str)
  then show ?thesis by (simp add: grows_do_request)
qed

lemma step_Cons_grows:
  assumes "ready s = t # q"
  shows "\<exists>new more. ready (step E s) = q @ new \<and> sends (step E s) = sends s @ more
           \<and> enable_nip15 (step E s) = enable_nip15 s"
  using grows_run_task [of "s\<lparr>ready := q\<rparr>" E t] assms
  by (simp add: step_def grows_def)

section \<open>The account of a backfill under any interleaving\<close>

lemma subseq_sent_append:
  "subseq past (map sent L) \<Longrightarrow> subseq past (map sent (L @ extra))"
  by (simp add: subseq_rev_drop_many)

lemma subseq_sent_snoc:
  "subseq past (map sent L) \<Longrightarrow> subseq (past @ [(w, d)]) (map sent (L @ [(w, d, ok)]))"
  by (simp add: sent_def list_emb_append_mono)

lemma backfill_pending_grow:
  "backfill_pending w sub_id nip15 q rem \<Longrightarrow> backfill_pending w sub_id nip15 (q @ new) rem"
proof -
  assume p: "backfill_pending w sub_id nip15 q rem"
  have up: "subseq xs (q @ new)" if "subseq xs q" for xs :: "task list"
    using that by (rule subseq_rev_drop_many)
  from p show ?thesis
    unfolding backfill_pending_def
  proof (elim disjE exE conjE)
    assume "rem = []"
    then show "rem = [] \<or>
      (\<exists>e rest. rem = backfill_frames w sub_id (e # rest) nip15
            \<and> (subseq [Send_event w sub_id e (Some (w, sub_id, rest))] (q @ new)
               \<or> subseq [Do_send w (event_frame sub_id e), Do_sub_resume w sub_id rest] (q @ new)))
      \<or> (\<exists>rest. rem = backfill_frames w sub_id rest nip15
            \<and> subseq [Do_sub_resume w sub_id rest] (q @ new))" by simp
  next
    fix e rest
    assume "rem = backfill_frames w sub_id (e # rest) nip15"
      "subseq [Send_event w sub_id e (Some (w, sub_id, rest))] q"
    with up show "rem = [] \<or>
      (\<exists>e rest. rem = backfill_frames w sub_id (e # rest) nip15
            \<and> (subseq [Send_event w sub_id e (Some (w, sub_id, rest))] (q @ new)
               \<or> subseq [Do_send w (event_frame sub_id e), Do_sub_resume w sub_id rest] (q @ new)))
      \<or> (\<exists>rest. rem = backfill_frames w sub_id rest nip15
            \<and> subseq [Do_sub_resume w sub_id rest] (q @ new))" by blast
  next
    fix e rest
    assume "rem = backfill_frames w sub_id (e # rest) nip15"
      "subseq [Do_send w (event_frame sub_id e), Do_sub_resume w sub_id rest] q"
    with up show "rem = [] \<or>
      (\<exists>e rest. rem = backfill_frames w sub_id (e # rest) nip15
            \<and> (subseq [Send_event w sub_id e (Some (w, sub_id, rest))] (q @ new)
               \<or> subseq [Do_send w (event_frame sub_id e), Do_sub_resume w sub_id rest] (q @ new)))
      \<or> (\<exists>rest. rem = backfill_frames w sub_id rest nip15
            \<and> subseq [Do_sub_resume w sub_id rest] (q @ new))" by blast
  next
    fix rest
    assume "rem = backfill_frames w sub_id rest nip15" "subseq [Do_sub_resume w sub_id rest] q"
    with up show "rem = [] \<or>
      (\<exists>e rest. rem = backfill_frames w sub_id (e # rest) nip15
            \<and> (subseq [Send_event w sub_id e (Some (w, sub_id, rest))] (q @ new)
               \<or> subseq [Do_send w (event_frame sub_id e), Do_sub_resume w sub_id rest] (q @ new)))
      \<or> (\<exists>rest. rem = backfill_frames w sub_id rest nip15
            \<and> subseq [Do_sub_resume w sub_id rest] (q @ new))" by blast
  qed
qed

lemma backfill_frames_Cons:
  "backfill_frames w sub_id (e # rest) nip15
     = (w, event_frame sub_id e) # backfill_frames w sub_id rest nip15"
  by (simp add: backfill_frames_def)

text \<open>One callback keeps the account of a backfill.\<close>

lemma step_backfill_pending:
  assumes L: "sends s = acc0 @ L" and F: "F = past @ rem" and d: "subseq past (map sent L)"
    and p: "backfill_pending w sub_id (enable_nip15 s) (ready s) rem"
  shows "\<exists>L' past' rem'. sends (step E s) = acc0 @ L' \<and> F = past' @ rem'
           \<and> subseq past' (map sent L')
           \<and> backfill_pending w sub_id (enable_nip15 s) (ready (step E s)) rem'
           \<and> enable_nip15 (step E s) = enable_nip15 s"
proof (cases "ready s")
  case Nil
  then have "step E s = s" by (simp add: step_def)
  with L F d p show ?thesis by auto
next
  case (Cons t q)
  let ?n = "enable_nip15 s"
  from step_Cons_grows [OF Cons, of E] obtain new extra where
    g: "ready (step E s) = q @ new" "sends (step E s) = sends s @ extra"
      "enable_nip15 (step E s) = ?n"
    by blast
  text \<open>The callback was not one of the backfill's: its account stands.\<close>
  have other: ?thesis if "backfill_pending w sub_id ?n q rem"
  proof -
    from that have "backfill_pending w sub_id ?n (ready (step E s)) rem"
      unfolding g(1) by (rule backfill_pending_grow)
    moreover from L g(2) have "sends (step E s) = acc0 @ (L @ extra)" by simp
    moreover from d have "subseq past (map sent (L @ extra))" by (rule subseq_sent_append)
    ultimately show ?thesis using F g(3) by blast
  qed
  from p consider
      (finished) "rem = []"
    | (task) e rest where "rem = backfill_frames w sub_id (e # rest) ?n"
        "subseq [Send_event w sub_id e (Some (w, sub_id, rest))] (ready s)"
    | (sending) e rest where "rem = backfill_frames w sub_id (e # rest) ?n"
        "subseq [Do_send w (event_frame sub_id e), Do_sub_resume w sub_id rest] (ready s)"
    | (resume) rest where "rem = backfill_frames w sub_id rest ?n"
        "subseq [Do_sub_resume w sub_id rest] (ready s)"
    unfolding backfill_pending_def by blast
  then show ?thesis
  proof cases
    case finished
    then have "backfill_pending w sub_id ?n q rem" by (simp add: backfill_pending_def)
    then show ?thesis by (rule other)
  next
    case task
    show ?thesis
    proof (cases "t = Send_event w sub_id e (Some (w, sub_id, rest))")
      case True
      with Cons have
        "step E s = s\<lparr>ready := q @ [Do_send w (event_frame sub_id e), Do_sub_resume w sub_id rest]\<rparr>"
        by (simp add: step_Send_event_Some)
      moreover have "backfill_pending w sub_id ?n
          (q @ [Do_send w (event_frame sub_id e), Do_sub_resume w sub_id rest]) rem"
        unfolding backfill_pending_def using task(1)
        by (intro disjI2 disjI1 exI [of _ e] exI [of _ rest] conjI) (auto intro: list_emb_append2)
      ultimately show ?thesis using L F d by auto
    next
      case False
      with task(2) Cons have "subseq [Send_event w sub_id e (Some (w, sub_id, rest))] q" by simp
      with task(1) have "backfill_pending w sub_id ?n q rem"
        unfolding backfill_pending_def by blast
      then show ?thesis by (rule other)
    qed
  next
    case sending
    show ?thesis
    proof (cases "t = Do_send w (event_frame sub_id e)")
      case True
      let ?ok = "send_ok E (length (sends s)) w (event_frame sub_id e)"
      from True Cons have st: "step E s
          = s\<lparr>ready := q, sends := sends s @ [(w, event_frame sub_id e, ?ok)]\<rparr>"
        by (simp add: step_Do_send)
      from sending(2) Cons True have r: "subseq [Do_sub_resume w sub_id rest] q" by simp
      have "sends (step E s) = acc0 @ (L @ [(w, event_frame sub_id e, ?ok)])"
        using st L by simp
      moreover have "F = (past @ [(w, event_frame sub_id e)]) @ backfill_frames w sub_id rest ?n"
        using F sending(1) by (simp add: backfill_frames_Cons)
      moreover have "subseq (past @ [(w, event_frame sub_id e)])
          (map sent (L @ [(w, event_frame sub_id e, ?ok)]))"
        using d by (rule subseq_sent_snoc)
      moreover have "backfill_pending w sub_id ?n (ready (step E s))
          (backfill_frames w sub_id rest ?n)"
        using r st unfolding backfill_pending_def by auto
      moreover have "enable_nip15 (step E s) = ?n" using st by simp
      ultimately show ?thesis by blast
    next
      case False
      with sending(2) Cons have
        "subseq [Do_send w (event_frame sub_id e), Do_sub_resume w sub_id rest] q" by simp
      with sending(1) have "backfill_pending w sub_id ?n q rem"
        unfolding backfill_pending_def by blast
      then show ?thesis by (rule other)
    qed
  next
    case resume
    show ?thesis
    proof (cases "t = Do_sub_resume w sub_id rest")
      case True
      with Cons have st: "step E s = backfill E w sub_id rest (s\<lparr>ready := q\<rparr>)"
        by (simp add: step_Do_sub_resume)
      show ?thesis
      proof (cases rest)
        case Nil
        show ?thesis
        proof (cases ?n)
          case True
          let ?ok = "send_ok E (length (sends s)) w (eose_frame sub_id)"
          from st Nil True have st': "step E s
              = s\<lparr>ready := q, sends := sends s @ [(w, eose_frame sub_id, ?ok)]\<rparr>"
            by (simp add: backfill_def send_eose_def do_send_eq)
          have "sends (step E s) = acc0 @ (L @ [(w, eose_frame sub_id, ?ok)])"
            using st' L by simp
          moreover have "F = (past @ [(w, eose_frame sub_id)]) @ []"
            using F resume(1) Nil True by (simp add: backfill_frames_def)
          moreover have "subseq (past @ [(w, eose_frame sub_id)])
              (map sent (L @ [(w, eose_frame sub_id, ?ok)]))"
            using d by (rule subseq_sent_snoc)
          moreover have "backfill_pending w sub_id ?n (ready (step E s)) []"
            by (simp add: backfill_pending_def)
          moreover have "enable_nip15 (step E s) = ?n" using st' by simp
          ultimately show ?thesis by blast
        next
          case False
          with resume(1) Nil have "rem = []" by (simp add: backfill_frames_def)
          then have "backfill_pending w sub_id ?n q rem" by (simp add: backfill_pending_def)
          then show ?thesis by (rule other)
        qed
      next
        case (Cons e' rest')
        from st Cons have st': "step E s
            = s\<lparr>ready := q @ [Send_event w sub_id e' (Some (w, sub_id, rest'))]\<rparr>"
          by (simp add: backfill_def create_task_def)
        have "backfill_pending w sub_id ?n
            (q @ [Send_event w sub_id e' (Some (w, sub_id, rest'))]) rem"
          unfolding backfill_pending_def using resume(1) Cons
          by (intro disjI2 disjI1 exI [of _ e'] exI [of _ rest'] conjI) (auto intro: list_emb_append2)
        with st' L F d show ?thesis by auto
      qed
    next
      case False
      with resume(2) Cons have "subseq [Do_sub_resume w sub_id rest] q" by simp
      with resume(1) have "backfill_pending w sub_id ?n q rem"
        unfolding backfill_pending_def by blast
      then show ?thesis by (rule other)
    qed
  qed
qed


lemma reachable_steps: "reachable E s0 s \<Longrightarrow> reachable E s0 (steps E n s)"
  by (induction n arbitrary: s) (auto intro: reachable.callback)

lemma reachable_backfill:
  assumes "reachable E s1 s2"
    and "sends s1 = acc0 @ L1" "F = past1 @ rem1" "subseq past1 (map sent L1)"
    and "backfill_pending w sub_id (enable_nip15 s1) (ready s1) rem1"
  shows "\<exists>L past rem. sends s2 = acc0 @ L \<and> F = past @ rem \<and> subseq past (map sent L)
           \<and> backfill_pending w sub_id (enable_nip15 s1) (ready s2) rem
           \<and> enable_nip15 s2 = enable_nip15 s1"
  using assms
proof (induction rule: reachable.induct)
  case initial
  then show ?case by blast
next
  case (connect s can_prepare)
  then obtain L past rem where i: "sends s = acc0 @ L" "F = past @ rem"
    "subseq past (map sent L)" "backfill_pending w sub_id (enable_nip15 s1) (ready s) rem"
    "enable_nip15 s = enable_nip15 s1" by blast
  have "sends (snd (websocket_handler can_prepare s)) = sends s"
    "ready (snd (websocket_handler can_prepare s)) = ready s"
    "enable_nip15 (snd (websocket_handler can_prepare s)) = enable_nip15 s"
    by (simp_all add: websocket_handler_def Let_def)
  with i show ?case by auto
next
  case (frame s w' req_str)
  then obtain L past rem where i: "sends s = acc0 @ L" "F = past @ rem"
    "subseq past (map sent L)" "backfill_pending w sub_id (enable_nip15 s1) (ready s) rem"
    "enable_nip15 s = enable_nip15 s1" by blast
  have "sends (receive_text w' req_str s) = sends s"
    "ready (receive_text w' req_str s) = ready s @ [Ws_msg w' req_str]"
    "enable_nip15 (receive_text w' req_str s) = enable_nip15 s"
    by (simp_all add: receive_text_def create_task_def)
  with i backfill_pending_grow [OF i(4), of "[Ws_msg w' req_str]"] show ?case by auto
next
  case (callback s)
  then obtain L past rem where i: "sends s = acc0 @ L" "F = past @ rem"
    "subseq past (map sent L)" "backfill_pending w sub_id (enable_nip15 s1) (ready s) rem"
    "enable_nip15 s = enable_nip15 s1" by blast
  from step_backfill_pending [OF i(1,2,3), of w sub_id E] i(4,5) show ?case by auto
next
  case (closed s w')
  then obtain L past rem where i: "sends s = acc0 @ L" "F = past @ rem"
    "subseq past (map sent L)" "backfill_pending w sub_id (enable_nip15 s1) (ready s) rem"
    "enable_nip15 s = enable_nip15 s1" by blast
  have "sends (snd (websocket_closed w' s)) = sends s"
    "ready (snd (websocket_closed w' s)) = ready s"
    "enable_nip15 (snd (websocket_closed w' s)) = enable_nip15 s"
    by (simp_all add: websocket_closed_def split: option.splits)
  with i show ?case by auto
qed

lemma backfill_pending_idle: "backfill_pending w sub_id nip15 [] rem \<Longrightarrow> rem = []"
  by (auto simp: backfill_pending_def)

text \<open>The account right after \<^verbatim>\<open>_do_sub\<close> has started the backfill.\<close>

lemma backfill_start:
  "\<exists>L past rem. sends (backfill E w sub_id evts s) = sends s @ L
      \<and> backfill_frames w sub_id evts (enable_nip15 s) = past @ rem
      \<and> subseq past (map sent L)
      \<and> backfill_pending w sub_id (enable_nip15 s) (ready (backfill E w sub_id evts s)) rem
      \<and> enable_nip15 (backfill E w sub_id evts s) = enable_nip15 s"
proof (cases evts)
  case Nil
  show ?thesis
  proof (cases "enable_nip15 s")
    case True
    let ?r = "(w, eose_frame sub_id, send_ok E (length (sends s)) w (eose_frame sub_id))"
    have "sends (backfill E w sub_id evts s) = sends s @ [?r]"
      "backfill_frames w sub_id evts (enable_nip15 s) = [(w, eose_frame sub_id)] @ []"
      "subseq [(w, eose_frame sub_id)] (map sent [?r])"
      "backfill_pending w sub_id (enable_nip15 s) (ready (backfill E w sub_id evts s)) []"
      "enable_nip15 (backfill E w sub_id evts s) = enable_nip15 s"
      using Nil True
      by (simp_all add: backfill_def send_eose_def do_send_eq backfill_frames_def sent_def
          backfill_pending_def)
    then show ?thesis by blast
  next
    case False
    have "sends (backfill E w sub_id evts s) = sends s @ []"
      "backfill_frames w sub_id evts (enable_nip15 s) = [] @ []"
      "subseq [] (map sent [])"
      "backfill_pending w sub_id (enable_nip15 s) (ready (backfill E w sub_id evts s)) []"
      "enable_nip15 (backfill E w sub_id evts s) = enable_nip15 s"
      using Nil False by (simp_all add: backfill_def backfill_frames_def backfill_pending_def)
    then show ?thesis by blast
  qed
next
  case (Cons e rest)
  let ?F = "backfill_frames w sub_id evts (enable_nip15 s)"
  have p: "backfill_pending w sub_id (enable_nip15 s) (ready (backfill E w sub_id evts s)) ?F"
    unfolding backfill_pending_def using Cons
    by (intro disjI2 disjI1 exI [of _ e] exI [of _ rest] conjI)
       (auto simp: backfill_def create_task_def intro: list_emb_append2)
  have "sends (backfill E w sub_id evts s) = sends s @ []" "?F = [] @ ?F"
    "subseq [] (map sent [])"
    "enable_nip15 (backfill E w sub_id evts s) = enable_nip15 s"
    using Cons by (simp_all add: backfill_def create_task_def)
  with p show ?thesis by blast
qed

lemma do_sub_any_run:
  assumes "map_of (ws s) w = Some c" "py_key sub_id = Some k" "\<not> dict_in sub_id (subs c)"
    "int (length (subs c)) < max_sub s" "f = (if fs = [] then JObj [] else JArr fs)"
    "get_filter E f (store s) = Inr evts"
    "reachable E (snd (do_sub E (verb # sub_id # fs) w s)) s2"
  shows "\<exists>L past rem. sends s2 = sends s @ L
      \<and> backfill_frames w sub_id evts (enable_nip15 s) = past @ rem
      \<and> subseq past (map sent L)
      \<and> backfill_pending w sub_id (enable_nip15 s) (ready s2) rem"
proof -
  let ?r = "registered w c sub_id f s"
  let ?s1 = "snd (do_sub E (verb # sub_id # fs) w s)"
  from do_sub_accepted [OF assms(1-4), of E verb fs] assms(5,6)
  have s1: "?s1 = backfill E w sub_id evts ?r" by simp
  have r: "sends ?r = sends s" "enable_nip15 ?r = enable_nip15 s"
    by (simp_all add: registered_def)
  from backfill_start [of E w sub_id evts ?r] obtain L1 past1 rem1 where
    b: "sends ?s1 = sends s @ L1"
    "backfill_frames w sub_id evts (enable_nip15 s) = past1 @ rem1"
    "subseq past1 (map sent L1)"
    "backfill_pending w sub_id (enable_nip15 ?s1) (ready ?s1) rem1"
    "enable_nip15 ?s1 = enable_nip15 s"
    unfolding s1 r by auto
  from reachable_backfill [OF assms(7) b(1,2,3,4)] b(5) show ?thesis by auto
qed

section \<open>Dispatch\<close>

lemma do_command_EVENT:
  "do_command E w (JArr (JStr ''EVENT'' # rest)) s = do_event E (JStr ''EVENT'' # rest) w s"
  by (simp add: do_command_def VALID_CMDS_def)

lemma do_command_REQ:
  "do_command E w (JArr (JStr ''REQ'' # rest)) s = do_sub E (JStr ''REQ'' # rest) w s"
  by (simp add: do_command_def VALID_CMDS_def)

lemma do_event_store_error:
  assumes "from_JSON E j = Inr evt" "is_valid E evt" "accept_post (accept_req s) w evt = None"
    "add_event E evt (store s) = (Some e, st')"
  shows "do_event E (verb # j # rest) w s = do_event_except E evt e (s\<lparr>store := st'\<rparr>)"
  using assms by (simp add: do_event_def do_event_try_def)

lemma registered_fields:
  "map_of (ws (registered w c sub_id f s)) w
     = Some (c\<lparr>subs := subs c @ [(sub_id, \<lparr>sub_ident = sub_id, sub_filter = f\<rparr>)]\<rparr>)
   \<and> sends (registered w c sub_id f s) = sends s
   \<and> ready (registered w c sub_id f s) = ready s
   \<and> store (registered w c sub_id f s) = store s
   \<and> enable_nip15 (registered w c sub_id f s) = enable_nip15 s"
  by (simp add: registered_def update_conv')

lemma do_sub_run:
  assumes "map_of (ws s) w = Some c" "py_key sub_id = Some k" "\<not> dict_in sub_id (subs c)"
    "int (length (subs c)) < max_sub s" "f = (if fs = [] then JObj [] else JArr fs)"
    "get_filter E f (store s) = Inr evts" "ready s = []"
  shows "steps E (3 * length evts) (snd (do_sub E (verb # sub_id # fs) w s)) =
     (registered w c sub_id f s)
       \<lparr>sends := send_each E (backfill_frames w sub_id evts (enable_nip15 s)) (sends s)\<rparr>"
proof -
  let ?r = "registered w c sub_id f s"
  from do_sub_accepted [OF assms(1-4), of E verb fs] assms(5,6)
  have "snd (do_sub E (verb # sub_id # fs) w s) = backfill E w sub_id evts ?r" by simp
  moreover have "ready ?r = []" using assms(7) by (simp add: registered_def)
  ultimately show ?thesis
    using backfill_run [of ?r E evts w sub_id] by (simp add: registered_def)
qed

lemma length_send_each: "length (send_each E ds acc) = length acc + length ds"
  by (induction ds arbitrary: acc) auto

lemma send_each_append:
  "send_each E (ds @ ds') acc = send_each E ds' (send_each E ds acc)"
  by (induction ds arbitrary: acc) auto

section \<open>Facts about the sample deployment and the fan-out\<close>

lemma ex_loads_ping: \<open>json_loads ex_env ''["PING"]'' = Inr (JArr [JStr ''PING''])\<close>
  by (simp add: ex_env_def ex_loads_def ex_frames_def)

lemma ex_relay1_init:
  "Relay_init ex_env [e2, e1] None 1 None None None None True = Inr ex_relay1"
  by (simp add: Relay_init_def ex_relay1_def ex_relay_def info_field_def supported_nips_def ex_env_def)

lemma ex_full_reachable: "reachable ex_env ex_relay1 ex_full"
  unfolding ex_full_def by (intro reachable.intros)

lemma ex_full_eq:
  "ex_full = ex_relay1\<lparr>ws_id := 1,
     ws := [(0, \<lparr>subs = [(JStr ''x'', \<lparr>sub_ident = JStr ''x'', sub_filter = JArr [JObj []]\<rparr>)],
                sock = 0\<rparr>)],
     ready := [Send_event 0 (JStr ''x'') e2 (Some (0, JStr ''x'', [e1]))]\<rparr>"
  by (simp add: ex_full_def ex_relay1_def relay_defs ex_defs Let_def)

lemma str_int_1: "str_int 1 = ''1''"
  by code_simp

lemma ex_duplicate_message:
  "str_in ''event_id'' (lower ''UNIQUE constraint failed: events.event_id'')
   \<and> str_in ''unique'' (lower ''UNIQUE constraint failed: events.event_id'')"
  by code_simp

lemma ex_open_eq2:
  "ws ex_open = [(0, \<lparr>subs = [], sock = 0\<rparr>), (1, \<lparr>subs = [], sock = 1\<rparr>)]
   \<and> max_sub ex_open = 3 \<and> store ex_open = [e2, e1] \<and> ready ex_open = []
   \<and> sends ex_open = [] \<and> enable_nip15 ex_open"
  by (simp add: ex_open_eq ex_relay_def)

lemma ex_check_subs:
  "check_subs ex_env e3 ex_subscribed =
     (None, ex_subscribed\<lparr>ready := [Send_event 0 (JStr ''x'') e3 None,
                                     Send_event 1 (JStr ''y'') e3 None]\<rparr>)"
  by (simp add: relay_defs ex_defs Let_def)

lemma ex_deaf_check_subs:
  "check_subs ex_env_deaf e3 ex_subscribed =
     (None, ex_subscribed\<lparr>ready := [Send_event 0 (JStr ''x'') e3 None,
                                     Send_event 1 (JStr ''y'') e3 None]\<rparr>)"
  by (simp add: relay_defs ex_defs Let_def)

section \<open>The account of a fan-out under any interleaving\<close>

lemma fanout_pending_grow:
  assumes "fanout_pending q rem"
  shows "fanout_pending (q @ new) rem"
proof -
  from assms obtain ts ds where
    p: "\<forall>t \<in> set ts. \<exists>w k d. t = Send_event w k d None"
    "subseq (ts @ map (\<lambda>(w, d). Do_send w d) ds) q"
    "rem = ds @ concat (map task_frame ts)"
    unfolding fanout_pending_def by blast
  from p(2) have "subseq (ts @ map (\<lambda>(w, d). Do_send w d) ds) (q @ new)"
    by (rule subseq_rev_drop_many)
  with p(1,3) show ?thesis unfolding fanout_pending_def by blast
qed

lemma fanout_pending_Nil: "fanout_pending q []"
  unfolding fanout_pending_def by (intro exI [of _ "[]"]) simp

lemma fanout_pending_idle:
  assumes "fanout_pending [] rem"
  shows "rem = []"
proof -
  from assms obtain ts ds where
    p: "subseq (ts @ map (\<lambda>(w, d). Do_send w d) ds) []" "rem = ds @ concat (map task_frame ts)"
    unfolding fanout_pending_def by blast
  from p(1) have "ts @ map (\<lambda>(w, d). Do_send w d) ds = []" by (rule list_emb_Nil2)
  then have "ts = []" "ds = []" by simp_all
  with p(2) show ?thesis by simp
qed

lemma step_fanout_pending:
  assumes L: "sends s = acc0 @ L" and F: "F = past @ rem" and d: "subseq past (map sent L)"
    and p: "fanout_pending (ready s) rem"
  shows "\<exists>L' past' rem'. sends (step E s) = acc0 @ L' \<and> F = past' @ rem'
           \<and> subseq past' (map sent L') \<and> fanout_pending (ready (step E s)) rem'"
proof (cases "ready s")
  case Nil
  then have "step E s = s" by (simp add: step_def)
  with L F d p show ?thesis by auto
next
  case (Cons t q)
  from step_Cons_grows [OF Cons, of E] obtain new extra where
    g: "ready (step E s) = q @ new" "sends (step E s) = sends s @ extra"
    by blast
  have other: ?thesis if "fanout_pending q rem"
  proof -
    from that have "fanout_pending (ready (step E s)) rem"
      unfolding g(1) by (rule fanout_pending_grow)
    moreover from L g(2) have "sends (step E s) = acc0 @ (L @ extra)" by simp
    moreover from d have "subseq past (map sent (L @ extra))" by (rule subseq_sent_append)
    ultimately show ?thesis using F by blast
  qed
  from p obtain ts ds where
    q: "\<forall>t \<in> set ts. \<exists>w k d. t = Send_event w k d None"
    "subseq (ts @ map (\<lambda>(w, d). Do_send w d) ds) (ready s)"
    "rem = ds @ concat (map task_frame ts)"
    unfolding fanout_pending_def by blast
  show ?thesis
  proof (cases ts)
    case (Cons t1 ts')
    from q(1) Cons obtain w k v where t1: "t1 = Send_event w k v None" by auto
    show ?thesis
    proof (cases "t = t1")
      case True
      with q(2) Cons \<open>ready s = t # q\<close> have
        sq: "subseq (ts' @ map (\<lambda>(w, d). Do_send w d) ds) q" by simp
      from True t1 \<open>ready s = t # q\<close> have
        st: "step E s = s\<lparr>ready := q @ [Do_send w (event_frame k v)]\<rparr>"
        by (simp add: step_Send_event_None)
      have "subseq ((ts' @ map (\<lambda>(w, d). Do_send w d) ds) @ [Do_send w (event_frame k v)])
          (q @ [Do_send w (event_frame k v)])"
        using sq by (intro list_emb_append_mono) simp_all
      then have "subseq (ts' @ map (\<lambda>(w, d). Do_send w d) (ds @ [(w, event_frame k v)]))
          (q @ [Do_send w (event_frame k v)])" by simp
      moreover have "rem = (ds @ [(w, event_frame k v)]) @ concat (map task_frame ts')"
        using q(3) Cons t1 by simp
      moreover have "\<forall>t \<in> set ts'. \<exists>w k d. t = Send_event w k d None"
        using q(1) Cons by simp
      ultimately have "fanout_pending (ready (step E s)) rem"
        unfolding fanout_pending_def st
        by (intro exI [of _ ts'] exI [of _ "ds @ [(w, event_frame k v)]"] conjI) simp_all
      with st L F d show ?thesis by auto
    next
      case False
      with q(2) Cons \<open>ready s = t # q\<close> have
        "subseq (ts @ map (\<lambda>(w, d). Do_send w d) ds) q" by simp
      with q(1,3) have "fanout_pending q rem" unfolding fanout_pending_def by blast
      then show ?thesis by (rule other)
    qed
  next
    case Nil
    show ?thesis
    proof (cases ds)
      case Nil
      with \<open>ts = []\<close> q(3) have "rem = []" by simp
      then have "fanout_pending q rem" by (simp add: fanout_pending_Nil)
      then show ?thesis by (rule other)
    next
      case (Cons p ds')
      obtain w v where pr: "p = (w, v)" by (cases p)
      show ?thesis
      proof (cases "t = Do_send w v")
        case True
        let ?ok = "send_ok E (length (sends s)) w v"
        from True \<open>ready s = t # q\<close> have
          st: "step E s = s\<lparr>ready := q, sends := sends s @ [(w, v, ?ok)]\<rparr>"
          by (simp add: step_Do_send)
        from q(2) Nil Cons pr True \<open>ready s = t # q\<close> have
          sq: "subseq (map (\<lambda>(w, d). Do_send w d) ds') q" by simp
        have "sends (step E s) = acc0 @ (L @ [(w, v, ?ok)])" using st L by simp
        moreover have "F = (past @ [(w, v)]) @ ds'" using F q(3) Nil Cons pr by simp
        moreover have "subseq (past @ [(w, v)]) (map sent (L @ [(w, v, ?ok)]))"
          using d by (rule subseq_sent_snoc)
        moreover have "fanout_pending (ready (step E s)) ds'"
          unfolding fanout_pending_def st using sq
          by (intro exI [of _ "[]"] exI [of _ ds'] conjI) simp_all
        ultimately show ?thesis by blast
      next
        case False
        with q(2) Nil Cons pr \<open>ready s = t # q\<close> have
          "subseq (ts @ map (\<lambda>(w, d). Do_send w d) ds) q" by simp
        with q(1,3) have "fanout_pending q rem" unfolding fanout_pending_def by blast
        then show ?thesis by (rule other)
      qed
    qed
  qed
qed

lemma reachable_fanout:
  assumes "reachable E s1 s2"
    and "sends s1 = acc0 @ L1" "F = past1 @ rem1" "subseq past1 (map sent L1)"
    and "fanout_pending (ready s1) rem1"
  shows "\<exists>L past rem. sends s2 = acc0 @ L \<and> F = past @ rem \<and> subseq past (map sent L)
           \<and> fanout_pending (ready s2) rem"
  using assms
proof (induction rule: reachable.induct)
  case initial
  then show ?case by blast
next
  case (connect s can_prepare)
  then obtain L past rem where i: "sends s = acc0 @ L" "F = past @ rem"
    "subseq past (map sent L)" "fanout_pending (ready s) rem" by blast
  have "sends (snd (websocket_handler can_prepare s)) = sends s"
    "ready (snd (websocket_handler can_prepare s)) = ready s"
    by (simp_all add: websocket_handler_def Let_def)
  with i show ?case by auto
next
  case (frame s w' req_str)
  then obtain L past rem where i: "sends s = acc0 @ L" "F = past @ rem"
    "subseq past (map sent L)" "fanout_pending (ready s) rem" by blast
  have "sends (receive_text w' req_str s) = sends s"
    "ready (receive_text w' req_str s) = ready s @ [Ws_msg w' req_str]"
    by (simp_all add: receive_text_def create_task_def)
  with i fanout_pending_grow [OF i(4), of "[Ws_msg w' req_str]"] show ?case by auto
next
  case (callback s)
  then obtain L past rem where i: "sends s = acc0 @ L" "F = past @ rem"
    "subseq past (map sent L)" "fanout_pending (ready s) rem" by blast
  from step_fanout_pending [OF i, of E] show ?case .
next
  case (closed s w')
  then obtain L past rem where i: "sends s = acc0 @ L" "F = past @ rem"
    "subseq past (map sent L)" "fanout_pending (ready s) rem" by blast
  have "sends (snd (websocket_closed w' s)) = sends s"
    "ready (snd (websocket_closed w' s)) = ready s"
    by (simp_all add: websocket_closed_def split: option.splits)
  with i show ?case by auto
qed

lemma check_subs_any_run:
  assumes "check_subs E evt s = (x, s1)" "reachable E s1 s2"
  shows "\<exists>new L past rem. ready s1 = ready s @ new
      \<and> (\<forall>t \<in> set new. \<exists>w k d. t = Send_event w k d None)
      \<and> sends s2 = sends s @ L
      \<and> concat (map task_frame new) = past @ rem
      \<and> subseq past (map sent L) \<and> fanout_pending (ready s2) rem"
proof -
  from check_subs_loop_ready [OF assms(1) [unfolded check_subs_def]] obtain new where
    n: "ready s1 = ready s @ new"
    "\<forall>t \<in> set new. \<exists>(i, c) \<in> set (ws s). \<exists>(k, sb) \<in> set (subs c).
        t = Send_event (sock c) k (event_data E evt) None
        \<and> ev_test E evt (sub_filter sb) = Inr True"
    by blast
  from n(2) have shape: "\<forall>t \<in> set new. \<exists>w k d. t = Send_event w k d None" by fast
  have "subseq (new @ map (\<lambda>(w, d). Do_send w d) []) (ready s @ new)"
    by (simp add: list_emb_append2)
  with shape n(1) have p: "fanout_pending (ready s1) (concat (map task_frame new))"
    unfolding fanout_pending_def by (intro exI [of _ new] exI [of _ "[]"] conjI) simp_all
  from check_subs_fields [OF assms(1)] have "sends s1 = sends s @ []" by simp
  moreover have "concat (map task_frame new) = [] @ concat (map task_frame new)"
    "subseq [] (map sent ([] :: (int \<times> json \<times> bool) list))"
    by simp_all
  ultimately have "\<exists>L past rem. sends s2 = sends s @ L
      \<and> concat (map task_frame new) = past @ rem \<and> subseq past (map sent L)
      \<and> fanout_pending (ready s2) rem"
    using p by (rule reachable_fanout [OF assms(2)])
  then obtain L past rem where
    "sends s2 = sends s @ L" "concat (map task_frame new) = past @ rem"
    "subseq past (map sent L)" "fanout_pending (ready s2) rem"
    by (elim exE conjE)
  with n(1) shape show ?thesis by blast
qed

section \<open>The keys of the connection table\<close>

lemma keys_update:
  "map_of xs k = Some v \<Longrightarrow> map fst (AList.update k v' xs) = map fst xs"
  by (induction xs) (auto split: if_splits)

lemma keys_do_sub: "map fst (ws (snd (do_sub E req_json w s))) = map fst (ws s)"
proof (cases "length req_json \<le> 1")
  case True
  then show ?thesis by (simp add: do_sub_short)
next
  case False
  then obtain verb sub_id fs where req: "req_json = verb # sub_id # fs"
    by (cases req_json; cases "tl req_json") auto
  show ?thesis
  proof (cases "map_of (ws s) w")
    case None
    with req show ?thesis by (simp add: do_sub_def Let_def)
  next
    case (Some c)
    show ?thesis
    proof (cases "py_key sub_id")
      case None
      with req Some show ?thesis by (simp add: do_sub_def Let_def)
    next
      case hashable: (Some k)
      show ?thesis
      proof (cases "dict_in sub_id (subs c)")
        case True
        with do_sub_duplicate [OF Some hashable True] req show ?thesis by simp
      next
        case fresh: False
        show ?thesis
        proof (cases "max_sub s \<le> int (length (subs c))")
          case True
          with do_sub_limit [OF Some hashable fresh True] req show ?thesis by simp
        next
          case False
          then have room: "int (length (subs c)) < max_sub s" by simp
          let ?f = "if fs = [] then JObj [] else JArr fs"
          let ?s1 = "registered w c sub_id ?f s"
          have k1: "map fst (ws ?s1) = map fst (ws s)"
            using Some by (simp add: registered_def keys_update)
          show ?thesis
          proof (cases "get_filter E ?f (store s)")
            case (Inl e)
            with do_sub_accepted [OF Some hashable fresh room, of E verb fs] req k1
            show ?thesis by simp
          next
            case (Inr evts)
            with do_sub_accepted [OF Some hashable fresh room, of E verb fs] req
            have "snd (do_sub E req_json w s) = backfill E w sub_id evts ?s1" by simp
            with k1 backfill_fields [of E w sub_id evts ?s1] show ?thesis by simp
          qed
        qed
      qed
    qed
  qed
qed

lemma keys_do_unsub: "map fst (ws (snd (do_unsub E req_json w s))) = map fst (ws s)"
  by (simp add: do_unsub_def Let_def keys_update split: option.splits)

lemma keys_do_event: "ws (snd (do_event E req_json w s)) = ws s"
proof -
  obtain x s' where e: "do_event E req_json w s = (x, s')" by (cases "do_event E req_json w s")
  from do_event_fields [OF e] e show ?thesis by simp
qed

lemma keys_do_command: "map fst (ws (snd (do_command E w as_json s))) = map fst (ws s)"
  by (simp add: do_command_def keys_do_sub keys_do_unsub keys_do_event split: sum.splits)

lemma keys_do_request: "map fst (ws (snd (do_request E w req_str s))) = map fst (ws s)"
proof -
  obtain x s1 where c:
    "(case json_loads E req_str of Inl e \<Rightarrow> (Some e, s) | Inr j \<Rightarrow> do_command E w j s) = (x, s1)"
    by (cases "case json_loads E req_str of Inl e \<Rightarrow> (Some e, s) | Inr j \<Rightarrow> do_command E w j s")
  have k1: "map fst (ws s1) = map fst (ws s)"
  proof (cases "json_loads E req_str")
    case (Inl e)
    with c show ?thesis by simp
  next
    case (Inr j)
    with c keys_do_command [of E w j s] show ?thesis by simp
  qed
  show ?thesis
  proof (cases "req_str = []")
    case True
    then show ?thesis by (simp add: do_request_def)
  next
    case False
    show ?thesis
    proof (cases x)
      case None
      with False c k1 show ?thesis by (simp add: do_request_def)
    next
      case (Some e)
      with False c k1 show ?thesis
        by (cases e) (simp_all add: do_request_def send_str_eq)
    qed
  qed
qed

lemma keys_step: "map fst (ws (step E s)) = map fst (ws s)"
proof (cases "ready s")
  case Nil
  then show ?thesis by (simp add: step_def)
next
  case (Cons t q)
  have "map fst (ws (run_task E t s')) = map fst (ws s')" for s' :: "('a, 'b) relay"
  proof (cases t)
    case (Do_send w d)
    then show ?thesis by (simp add: do_send_eq)
  next
    case (Send_event w sub_id evt waiter)
    then show ?thesis by (cases waiter) (auto simp: send_event_def create_task_def)
  next
    case (Do_sub_resume w sub_id rest)
    then show ?thesis by (simp add: backfill_fields)
  next
    case (Ws_msg w req_str)
    then show ?thesis by (simp add: keys_do_request)
  qed
  from this [of "s\<lparr>ready := q\<rparr>"] Cons show ?thesis by (simp add: step_def)
qed

lemma keys_delete:
  "w' \<noteq> w \<Longrightarrow> (w' \<in> fst ` set (AList.delete w xs)) = (w' \<in> fst ` set xs)"
  by (induction xs) auto

section \<open>A fan-out in which no test raises\<close>

lemma check_conn_subs_total:
  assumes "\<forall>f. \<exists>b. ev_test E evt f = Inr b" "check_conn_subs E evt w d s = (x, s')"
  shows "x = None
     \<and> (\<forall>(k, sb) \<in> set d. ev_test E evt (sub_filter sb) = Inr True \<longrightarrow>
           Send_event w k (event_data E evt) None \<in> set (ready s'))"
  using assms(2)
proof (induction d arbitrary: s)
  case Nil
  then show ?case by simp
next
  case (Cons p d)
  obtain k sb where p: "p = (k, sb)" by (cases p)
  from assms(1) obtain b where b: "ev_test E evt (sub_filter sb) = Inr b" by blast
  show ?case
  proof (cases b)
    case True
    let ?t = "Send_event w k (event_data E evt) None"
    from Cons.prems p b True have run: "check_conn_subs E evt w d (create_task ?t s) = (x, s')"
      by simp
    from check_conn_subs_ready [OF run] have "?t \<in> set (ready s')"
      by (auto simp: create_task_def)
    with Cons.IH [OF run] p show ?thesis by simp
  next
    case False
    with Cons.prems p b have run: "check_conn_subs E evt w d s = (x, s')" by simp
    from Cons.IH [OF run] p b False show ?thesis by simp
  qed
qed

lemma check_subs_loop_total:
  assumes "\<forall>f. \<exists>b. ev_test E evt f = Inr b" "check_subs_loop E evt cs s = (x, s')"
  shows "x = None
     \<and> (\<forall>(i, c) \<in> set cs. \<forall>(k, sb) \<in> set (subs c).
           ev_test E evt (sub_filter sb) = Inr True \<longrightarrow>
           Send_event (sock c) k (event_data E evt) None \<in> set (ready s'))"
  using assms(2)
proof (induction cs arbitrary: s)
  case Nil
  then show ?case by simp
next
  case (Cons p cs)
  obtain i c where p: "p = (i, c)" by (cases p)
  obtain y s1 where inner: "check_conn_subs E evt (sock c) (subs c) s = (y, s1)"
    by (cases "check_conn_subs E evt (sock c) (subs c) s")
  from check_conn_subs_total [OF assms(1) inner] have y: "y = None"
    and here: "\<forall>(k, sb) \<in> set (subs c). ev_test E evt (sub_filter sb) = Inr True \<longrightarrow>
           Send_event (sock c) k (event_data E evt) None \<in> set (ready s1)"
    by simp_all
  from Cons.prems p inner y have run: "check_subs_loop E evt cs s1 = (x, s')" by simp
  from check_subs_loop_ready [OF run] obtain new where "ready s' = ready s1 @ new" by blast
  with here have "\<forall>(k, sb) \<in> set (subs c). ev_test E evt (sub_filter sb) = Inr True \<longrightarrow>
           Send_event (sock c) k (event_data E evt) None \<in> set (ready s')"
    by auto
  with Cons.IH [OF run] p show ?case by simp
qed

lemma check_subs_schedules:
  assumes "\<forall>f. \<exists>b. ev_test E evt f = Inr b"
    "map_of (ws t) w = Some c" "(k, sb) \<in> set (subs c)"
    "ev_test E evt (sub_filter sb) = Inr True"
  shows "fst (check_subs E evt t) = None
     \<and> Send_event (sock c) k (event_data E evt) None \<in> set (ready (snd (check_subs E evt t)))"
proof -
  obtain x s' where run: "check_subs_loop E evt (ws t) t = (x, s')"
    by (cases "check_subs_loop E evt (ws t) t")
  from assms(2) have "(w, c) \<in> set (ws t)" by (rule map_of_SomeD)
  with check_subs_loop_total [OF assms(1) run] assms(3,4) have
    "x = None" "Send_event (sock c) k (event_data E evt) None \<in> set (ready s')"
    by fast+
  with run show ?thesis by (simp add: check_subs_def)
qed

section \<open>The claims\<close>

subsection \<open>C1: the \<^verbatim>\<open>pubkey\<close> option\<close>

text \<open>
  C1. A relay given a \<^verbatim>\<open>pubkey\<close> is never constructed: when \<^verbatim>\<open>Keys.is_key(pubkey)\<close> is
  false the test of line 100 raises, and when it is true the test of line 125, which
  lacks the \<^verbatim>\<open>not\<close> of line 100, raises the same exception. So the branch that would add
  the \<^verbatim>\<open>pubkey\<close> field to the information document is never reached, whatever
  \<^verbatim>\<open>Keys.is_key\<close> answers.
\<close>

theorem Relay_init_pubkey_always_raises:
  "Relay_init E st h m name descr (Some p) contact nip15 = Inl (bad_pubkey p)"
  by (simp add: Relay_init_def Let_def)

subsection \<open>C2: backfill, EOSE and live events\<close>

text \<open>
  C2. An accepted \<^verbatim>\<open>REQ\<close> whose store query returns \<open>evts\<close>. Its backfill frames are one
  \<^verbatim>\<open>["EVENT", sub_id, e]\<close> per event, in the order the store returned them, followed by
  \<^verbatim>\<open>["EOSE", sub_id]\<close> when \<^verbatim>\<open>enable_nip15\<close> is set (\<open>backfill_frames\<close>). In every state
  \<open>s2\<close> the relay reaches after \<^verbatim>\<open>_do_sub\<close> has started the backfill, whatever requests,
  frames, callbacks and closed sockets come in between and whatever the outcome of each
  write, the backfill frames split into those already handed to \<^verbatim>\<open>ws.send_str\<close> on the
  socket, which occur in this order among the sends made since the \<^verbatim>\<open>REQ\<close>, and those
  still to come, for which the ready queue holds the next task (\<open>backfill_pending\<close>): the
  \<^verbatim>\<open>_send_event\<close> task of the next event, or the \<^verbatim>\<open>_do_send\<close> task of that event ahead of
  the suspended \<^verbatim>\<open>_do_sub\<close>, which alone creates the task of the event after it. When the
  ready queue is empty every backfill frame has been handed to the socket, in order,
  EOSE last. When no other callback is ready at the \<^verbatim>\<open>REQ\<close>, three callbacks per event
  complete the backfill and the sends recorded since are exactly the backfill frames.
  Nothing is said of where a live frame of the subscription falls.
\<close>

theorem backfill_then_eose:
  assumes "map_of (ws s) w = Some c" "py_key sub_id = Some k" "\<not> dict_in sub_id (subs c)"
    "int (length (subs c)) < max_sub s" "f = (if fs = [] then JObj [] else JArr fs)"
    "get_filter E f (store s) = Inr evts"
  shows "(\<forall>s2. reachable E (snd (do_sub E (verb # sub_id # fs) w s)) s2 \<longrightarrow>
          (\<exists>L past rem. sends s2 = sends s @ L
             \<and> backfill_frames w sub_id evts (enable_nip15 s) = past @ rem
             \<and> subseq past (map sent L)
             \<and> backfill_pending w sub_id (enable_nip15 s) (ready s2) rem
             \<and> (ready s2 = [] \<longrightarrow>
                  subseq (backfill_frames w sub_id evts (enable_nip15 s)) (map sent L))))
   \<and> (ready s = [] \<longrightarrow>
        ready (steps E (3 * length evts) (snd (do_sub E (verb # sub_id # fs) w s))) = []
        \<and> sends (steps E (3 * length evts) (snd (do_sub E (verb # sub_id # fs) w s)))
            = send_each E (backfill_frames w sub_id evts (enable_nip15 s)) (sends s))"
proof (intro conjI allI impI)
  fix s2
  assume "reachable E (snd (do_sub E (verb # sub_id # fs) w s)) s2"
  from do_sub_any_run [OF assms this] obtain L past rem where
    i: "sends s2 = sends s @ L"
    "backfill_frames w sub_id evts (enable_nip15 s) = past @ rem"
    "subseq past (map sent L)"
    "backfill_pending w sub_id (enable_nip15 s) (ready s2) rem"
    by (elim exE conjE)
  have "ready s2 = [] \<longrightarrow>
      subseq (backfill_frames w sub_id evts (enable_nip15 s)) (map sent L)"
  proof
    assume "ready s2 = []"
    with i(4) have "rem = []" by (simp add: backfill_pending_idle)
    with i(2,3) show "subseq (backfill_frames w sub_id evts (enable_nip15 s)) (map sent L)"
      by simp
  qed
  with i show "\<exists>L past rem. sends s2 = sends s @ L
             \<and> backfill_frames w sub_id evts (enable_nip15 s) = past @ rem
             \<and> subseq past (map sent L)
             \<and> backfill_pending w sub_id (enable_nip15 s) (ready s2) rem
             \<and> (ready s2 = [] \<longrightarrow>
                  subseq (backfill_frames w sub_id evts (enable_nip15 s)) (map sent L))"
    by (intro exI conjI)
next
  assume idle: "ready s = []"
  note run = do_sub_run [OF assms idle, of verb]
  show "ready (steps E (3 * length evts) (snd (do_sub E (verb # sub_id # fs) w s))) = []"
    unfolding run using idle by (simp add: registered_def)
  show "sends (steps E (3 * length evts) (snd (do_sub E (verb # sub_id # fs) w s)))
            = send_each E (backfill_frames w sub_id evts (enable_nip15 s)) (sends s)"
    unfolding run by simp
qed

text \<open>
  An instance: \<^verbatim>\<open>["REQ","x"]\<close> on socket 0 of the sample relay, which stores two events
  and has EOSE enabled, and the state six callbacks later.
\<close>

theorem backfill_then_eose_example:
  "get_filter ex_env (JObj []) (store ex_open) = Inr [e2, e1]
   \<and> ready (steps ex_env 6 (snd (do_sub ex_env [JStr ''REQ'', JStr ''x''] 0 ex_open))) = []
   \<and> (\<exists>L. sends (steps ex_env 6 (snd (do_sub ex_env [JStr ''REQ'', JStr ''x''] 0 ex_open)))
              = sends ex_open @ L
          \<and> subseq [(0, event_frame (JStr ''x'') e2), (0, event_frame (JStr ''x'') e1),
                     (0, eose_frame (JStr ''x''))] (map sent L))
   \<and> sends (steps ex_env 6 (snd (do_sub ex_env [JStr ''REQ'', JStr ''x''] 0 ex_open)))
       = [(0, event_frame (JStr ''x'') e2, True), (0, event_frame (JStr ''x'') e1, True),
          (0, eose_frame (JStr ''x''), True)]"
proof -
  let ?s1 = "snd (do_sub ex_env [JStr ''REQ'', JStr ''x''] 0 ex_open)"
  have h: "map_of (ws ex_open) 0 = Some \<lparr>subs = [], sock = 0\<rparr>"
    "py_key (JStr ''x'') = Some (KStr ''x'')"
    "\<not> dict_in (JStr ''x'') (subs \<lparr>subs = [], sock = 0\<rparr>)"
    "int (length (subs \<lparr>subs = [], sock = 0\<rparr>)) < max_sub ex_open"
    "JObj [] = (if ([]::json list) = [] then JObj [] else JArr [])"
    "get_filter ex_env (JObj []) (store ex_open) = Inr [e2, e1]"
    by (simp_all add: ex_open_eq2 dict_in_def ex_env_def)
  have g: "ready ex_open = []" "sends ex_open = []" "enable_nip15 ex_open"
    "send_ok ex_env n w d" for n w d
    by (simp_all add: ex_open_eq2 ex_env_def)
  note T = backfill_then_eose [OF h, where verb = "JStr ''REQ''"]
  from T g(1) have idle: "ready (steps ex_env 6 ?s1) = []"
    and log: "sends (steps ex_env 6 ?s1)
       = send_each ex_env (backfill_frames 0 (JStr ''x'') [e2, e1] (enable_nip15 ex_open))
           (sends ex_open)"
    by simp_all
  have reach: "reachable ex_env ?s1 (steps ex_env 6 ?s1)"
    by (rule reachable_steps [OF reachable.initial])
  from T [THEN conjunct1, rule_format, OF reach] obtain L where
    "sends (steps ex_env 6 ?s1) = sends ex_open @ L"
    "ready (steps ex_env 6 ?s1) = [] \<longrightarrow>
       subseq (backfill_frames 0 (JStr ''x'') [e2, e1] (enable_nip15 ex_open)) (map sent L)"
    by (elim exE conjE)
  with idle have "sends (steps ex_env 6 ?s1) = sends ex_open @ L"
    "subseq (backfill_frames 0 (JStr ''x'') [e2, e1] (enable_nip15 ex_open)) (map sent L)"
    by simp_all
  then have "\<exists>L. sends (steps ex_env 6 ?s1) = sends ex_open @ L
          \<and> subseq [(0, event_frame (JStr ''x'') e2), (0, event_frame (JStr ''x'') e1),
                     (0, eose_frame (JStr ''x''))] (map sent L)"
    using g(3) by (intro exI [of _ L]) (simp add: backfill_frames_def)
  moreover from log have "sends (steps ex_env 6 ?s1)
       = [(0, event_frame (JStr ''x'') e2, True), (0, event_frame (JStr ''x'') e1, True),
          (0, eose_frame (JStr ''x''), True)]"
    by (simp add: g backfill_frames_def)
  ultimately show ?thesis using h(6) idle by (intro conjI)
qed

text \<open>
  A live event ahead of EOSE. Socket 0 sends \<^verbatim>\<open>["REQ","x"]\<close> while the store holds \<open>e2\<close>
  and \<open>e1\<close>, and socket 1 posts \<open>e3\<close>. \<^verbatim>\<open>_do_sub\<close> registers \<^verbatim>\<open>x\<close> before its first
  \<^verbatim>\<open>await\<close>, so the fan-out for \<open>e3\<close>, which runs while \<^verbatim>\<open>_do_sub\<close> is suspended, finds
  \<^verbatim>\<open>x\<close> and schedules a delivery. The ten callbacks are: the handler of socket 0 (creates
  the task for \<open>e2\<close>), the handler of socket 1 (stores \<open>e3\<close>, creates the live task), the
  two \<^verbatim>\<open>_send_event\<close> tasks, the write of \<open>e2\<close>, \<^verbatim>\<open>_do_sub\<close> resumed (creates the task for
  \<open>e1\<close>), the write of the live \<open>e3\<close>, the \<^verbatim>\<open>_send_event\<close> task for \<open>e1\<close>, the write of
  \<open>e1\<close>, and \<^verbatim>\<open>_do_sub\<close> resumed, which writes EOSE. The live frame for \<open>e3\<close>, which
  was not among the stored events, reaches the socket before the last backfill frame
  and before EOSE.
\<close>

theorem live_event_before_eose:
  "sends (steps ex_env 10 ex_race) =
     [(0, event_frame (JStr ''x'') e2, True),
      (0, event_frame (JStr ''x'') e3, True),
      (0, event_frame (JStr ''x'') e1, True),
      (0, eose_frame (JStr ''x''), True)]
   \<and> get_filter ex_env (JObj []) (store ex_open) = Inr [e2, e1]"
  by (simp add: eval_nat_numeral relay_defs ex_defs Let_def)

subsection \<open>C3: frames that are not commands\<close>

text \<open>
  C3. An empty message is dropped: nothing is sent and the state is unchanged. A
  message on which \<^verbatim>\<open>json.loads\<close> raises JSONDecodeError, an empty JSON array, and a
  JSON array whose first element is not one of \<^verbatim>\<open>EVENT\<close>, \<^verbatim>\<open>REQ\<close>, \<^verbatim>\<open>CLOSE\<close> each cause
  exactly one call of \<^verbatim>\<open>ws.send_str\<close>, on the same socket, with a NOTICE frame (\<open>m\<close> is
  its text); nothing else of the state changes, and the handler returns normally when
  that write succeeds. (Another exception of \<^verbatim>\<open>json.loads\<close> is not caught: it leaves
  \<^verbatim>\<open>_do_request\<close> with nothing sent, see \<open>do_request_uncaught\<close>.)
\<close>

theorem do_request_rejected_frame:
  "do_request E w [] s = (None, s)
   \<and> (req_str \<noteq> [] \<longrightarrow>
        (json_loads E req_str = Inl JSONDecodeError \<and> m = ''unable to decode command string''
         \<or> json_loads E req_str = Inr (JArr []) \<and> m = ''No command received''
         \<or> (\<exists>cmd rest. json_loads E req_str = Inr (JArr (cmd # rest))
              \<and> cmd \<notin> set VALID_CMDS \<and> m = ''unsupported command '' @ fmt E cmd)) \<longrightarrow>
        do_request E w req_str s =
          (if send_ok E (length (sends s)) w (notice_frame m) then None else Some ConnectionError,
           s\<lparr>sends := sends s
                @ [(w, notice_frame m, send_ok E (length (sends s)) w (notice_frame m))]\<rparr>))"
proof (intro conjI impI)
  show "do_request E w [] s = (None, s)" by (simp add: do_request_def)
next
  assume ne: "req_str \<noteq> []"
  assume "json_loads E req_str = Inl JSONDecodeError \<and> m = ''unable to decode command string''
         \<or> json_loads E req_str = Inr (JArr []) \<and> m = ''No command received''
         \<or> (\<exists>cmd rest. json_loads E req_str = Inr (JArr (cmd # rest))
              \<and> cmd \<notin> set VALID_CMDS \<and> m = ''unsupported command '' @ fmt E cmd)"
  then have "do_request E w req_str s = send_str E w (notice_frame m) s"
  proof (elim disjE conjE exE)
    assume d: "json_loads E req_str = Inl JSONDecodeError" "m = ''unable to decode command string''"
    from do_request_decode_error [OF ne d(1)] d(2) show ?thesis by simp
  next
    assume e: "json_loads E req_str = Inr (JArr [])" "m = ''No command received''"
    from do_request_raised [OF ne e(1) do_command_empty] e(2) show ?thesis by simp
  next
    fix cmd rest
    assume v: "json_loads E req_str = Inr (JArr (cmd # rest))"
        "cmd \<notin> set VALID_CMDS" "m = ''unsupported command '' @ fmt E cmd"
    from do_request_raised [OF ne v(1) do_command_unsupported [OF v(2)]] v(3)
    show ?thesis by simp
  qed
  then show "do_request E w req_str s =
          (if send_ok E (length (sends s)) w (notice_frame m) then None else Some ConnectionError,
           s\<lparr>sends := sends s
                @ [(w, notice_frame m, send_ok E (length (sends s)) w (notice_frame m))]\<rparr>)"
    by (simp only: send_str_eq)
qed

text \<open>
  An instance: the frame \<^verbatim>\<open>["PING"]\<close> on socket 0 of the sample relay.
\<close>

theorem do_request_rejected_frame_example:
  \<open>do_request ex_env 0 ''["PING"]'' ex_open =
     (None, ex_open\<lparr>sends := [(0, notice_frame ''unsupported command PING'', True)]\<rparr>)\<close>
proof -
  have v: "JStr ''PING'' \<notin> set VALID_CMDS" by (simp add: VALID_CMDS_def)
  have f: "fmt ex_env (JStr ''PING'') = ''PING''" by (simp add: fmt_def)
  have s: "sends ex_open = []" by (simp add: ex_open_eq ex_relay_def)
  have ok: "send_ok ex_env n w d" for n w d by (simp add: ex_env_def)
  have ne: \<open>''["PING"]'' \<noteq> []\<close> by simp
  from do_request_rejected_frame [of ex_env 0 ex_open \<open>''["PING"]''\<close> "''unsupported command PING''"]
    ex_loads_ping v f ne
  have \<open>do_request ex_env 0 ''["PING"]'' ex_open =
          (if send_ok ex_env (length (sends ex_open)) 0 (notice_frame ''unsupported command PING'') then None else Some ConnectionError,
           ex_open\<lparr>sends := sends ex_open
                @ [(0, notice_frame ''unsupported command PING'', send_ok ex_env (length (sends ex_open)) 0 (notice_frame ''unsupported command PING''))]\<rparr>)\<close>
    by simp
  then show ?thesis by (simp add: s ok)
qed

text \<open>
  The empty message on socket 0 of the sample relay: \<^verbatim>\<open>_do_request\<close> returns at line
  236, the state is the one before, and no NOTICE has been sent.
\<close>

theorem empty_message_no_notice:
  "do_request ex_env 0 [] ex_open = (None, ex_open) \<and> sends ex_open = []"
  by (simp add: do_request_def ex_open_eq ex_relay_def)

subsection \<open>C4: errors of the store on a post\<close>

text \<open>
  C4. An \<^verbatim>\<open>EVENT\<close> post that reaches the store (the event parses, is valid and is
  accepted by every handler) and for which \<^verbatim>\<open>add_event\<close> raises \<open>e\<close>: when \<open>e\<close> is an
  integrity error whose lower-cased message holds both \<^verbatim>\<open>event_id\<close> and \<^verbatim>\<open>unique\<close>, one
  NOTICE "event already exists: <id>" is sent on the socket; for any other error
  nothing is sent and \<^verbatim>\<open>_do_request\<close> returns normally. In both cases the connection
  table is untouched: only the store's state (and the record of sends) differs.
\<close>

theorem event_store_error:
  assumes "req_str \<noteq> []" "json_loads E req_str = Inr (JArr (JStr ''EVENT'' # j # rest))"
    "from_JSON E j = Inr evt" "is_valid E evt" "accept_post (accept_req s) w evt = None"
    "add_event E evt (store s) = (Some e, st')"
  shows "do_request E w req_str s =
     (if is_integrity (pg_errors E) e \<and> str_in ''event_id'' (lower (exn_str e))
           \<and> str_in ''unique'' (lower (exn_str e))
      then (if send_ok E (length (sends s)) w
                 (notice_frame (''event already exists: '' @ ev_id E evt))
            then None else Some ConnectionError,
            s\<lparr>store := st',
              sends := sends s @
                [(w, notice_frame (''event already exists: '' @ ev_id E evt),
                  send_ok E (length (sends s)) w
                    (notice_frame (''event already exists: '' @ ev_id E evt)))]\<rparr>)
      else (None, s\<lparr>store := st'\<rparr>))"
proof -
  let ?dup = "is_integrity (pg_errors E) e \<and> str_in ''event_id'' (lower (exn_str e))
           \<and> str_in ''unique'' (lower (exn_str e))"
  have cmd: "do_command E w (JArr (JStr ''EVENT'' # j # rest)) s
      = do_event_except E evt e (s\<lparr>store := st'\<rparr>)"
    using do_event_store_error [OF assms(3-6)] by (simp only: do_command_EVENT)
  show ?thesis
  proof (cases ?dup)
    case True
    then have "do_event_except E evt e (s\<lparr>store := st'\<rparr>)
        = (Some (NostrCommandException (''event already exists: '' @ ev_id E evt)), s\<lparr>store := st'\<rparr>)"
      by (simp add: do_event_except_def event_already_exists_def)
    with cmd have "do_command E w (JArr (JStr ''EVENT'' # j # rest)) s
        = (Some (NostrCommandException (''event already exists: '' @ ev_id E evt)), s\<lparr>store := st'\<rparr>)"
      by simp
    from do_request_raised [OF assms(1,2) this] True show ?thesis
      by (simp add: send_str_eq)
  next
    case False
    then have "do_event_except E evt e (s\<lparr>store := st'\<rparr>) = (None, s\<lparr>store := st'\<rparr>)"
      by (auto simp: do_event_except_def Let_def)
    with cmd have "do_command E w (JArr (JStr ''EVENT'' # j # rest)) s = (None, s\<lparr>store := st'\<rparr>)"
      by simp
    from do_request_returned [OF assms(1,2) this]
    have r: "do_request E w req_str s = (None, s\<lparr>store := st'\<rparr>)" .
    show ?thesis by (simp only: r False if_False)
  qed
qed

text \<open>
  An instance: posting \<open>e1\<close>, which the sample store already holds.
\<close>

theorem event_store_error_example:
  \<open>do_request ex_env 0 ''["EVENT",{"id":"e1"}]'' ex_open =
     (None, ex_open\<lparr>sends := [(0, notice_frame ''event already exists: e1'', True)]\<rparr>)\<close>
proof -
  have h: \<open>''["EVENT",{"id":"e1"}]'' \<noteq> []\<close>
    \<open>json_loads ex_env ''["EVENT",{"id":"e1"}]'' = Inr (JArr (JStr ''EVENT'' # e1 # []))\<close>
    "from_JSON ex_env e1 = Inr e1" "is_valid ex_env e1"
    "accept_post (accept_req ex_open) 0 e1 = None"
    "add_event ex_env e1 (store ex_open)
       = (Some (IntegrityError ''UNIQUE constraint failed: events.event_id''), [e2, e1])"
    by (simp_all add: ex_open_eq ex_relay_def ex_env_def ex_loads_def ex_frames_def e1_def e2_def ex_add_event_def)
  have v: "is_integrity (pg_errors ex_env) (IntegrityError ''UNIQUE constraint failed: events.event_id'')"
    "exn_str (IntegrityError ''UNIQUE constraint failed: events.event_id'')
       = ''UNIQUE constraint failed: events.event_id''"
    "ev_id ex_env e1 = ''e1''" "send_ok ex_env n w d" "sends ex_open = []"
    "ex_open\<lparr>store := [e2, e1]\<rparr> = ex_open" for n w d
    by (simp_all add: is_integrity_def ex_env_def ex_ev_id_def e1_def ex_open_eq ex_relay_def)
  from event_store_error [OF h] ex_duplicate_message v(1,2,3,4,5) show ?thesis
    by (simp add: ex_open_eq ex_relay_def)
qed

text \<open>
  A store whose \<^verbatim>\<open>add_event\<close> raises \<^verbatim>\<open>Exception('database is locked')\<close>: the post is
  dropped without any frame to the client.
\<close>

theorem storage_fault_no_notice:
  \<open>do_request ex_env_fault 0 ''["EVENT",{"id":"e3"}]'' ex_open = (None, ex_open)
   \<and> sends ex_open = []\<close>
  by (simp add: relay_defs ex_defs Let_def)

subsection \<open>C5: the bound on subscriptions\<close>

text \<open>
  C5. For a relay constructed with \<^verbatim>\<open>max_sub\<close> \<open>m \<ge> 0\<close>, in every state reached by
  connections, closes, arriving frames and callbacks of the loop, every entry of the
  connection table holds at most \<open>m\<close> subscriptions. In such a state a \<^verbatim>\<open>REQ\<close> whose
  \<^verbatim>\<open>sub_id\<close> is already present, and a \<^verbatim>\<open>REQ\<close> with a new \<^verbatim>\<open>sub_id\<close> on a socket that
  already holds \<open>m\<close> subscriptions, leave the connection table as it was and send one
  NOTICE; the second quotes the limit.
\<close>

theorem subscriptions_bounded:
  assumes "Relay_init E st h m name descr pubkey contact nip15 = Inr r" "0 \<le> m"
    "reachable E r s"
  shows "subs_bounded s \<and> max_sub s = m
   \<and> (req_str \<noteq> [] \<and> json_loads E req_str = Inr (JArr (JStr ''REQ'' # sub_id # fs))
        \<and> map_of (ws s) w = Some c \<and> py_key sub_id = Some k \<longrightarrow>
        (dict_in sub_id (subs c) \<longrightarrow>
           ws (snd (do_request E w req_str s)) = ws s
           \<and> sends (snd (do_request E w req_str s)) = sends s @
               [(w, notice_frame (''REQ command for sub_id that already exists - '' @ fmt E sub_id),
                 send_ok E (length (sends s)) w
                   (notice_frame (''REQ command for sub_id that already exists - ''
                                    @ fmt E sub_id)))])
        \<and> (\<not> dict_in sub_id (subs c) \<and> m \<le> int (length (subs c)) \<longrightarrow>
           ws (snd (do_request E w req_str s)) = ws s
           \<and> sends (snd (do_request E w req_str s)) = sends s @
               [(w, notice_frame (''REQ new sub_id '' @ fmt E sub_id
                                    @ '' not allowed, already at max subs='' @ str_int m),
                 send_ok E (length (sends s)) w
                   (notice_frame (''REQ new sub_id '' @ fmt E sub_id
                                    @ '' not allowed, already at max subs='' @ str_int m)))]))"
proof -
  from Relay_init_fields [OF assms(1)] have r: "ws r = []" "max_sub r = m" by simp_all
  then have "subs_bounded r" "0 \<le> max_sub r" using assms(2) by (simp_all add: subs_bounded_def)
  from reachable_bounded [OF assms(3) this] r(2)
  have inv: "subs_bounded s" and m: "max_sub s = m" by simp_all
  have rej: "ws (snd (do_request E w req_str s)) = ws s
       \<and> sends (snd (do_request E w req_str s)) = sends s @
             [(w, notice_frame msg, send_ok E (length (sends s)) w (notice_frame msg))]"
    if "req_str \<noteq> []" "json_loads E req_str = Inr (JArr (JStr ''REQ'' # sub_id # fs))"
      "do_sub E (JStr ''REQ'' # sub_id # fs) w s = (Some (NostrCommandException msg), s)"
    for msg
  proof -
    from that(3) have "do_command E w (JArr (JStr ''REQ'' # sub_id # fs)) s
        = (Some (NostrCommandException msg), s)"
      by (simp only: do_command_REQ)
    from do_request_raised [OF that(1,2) this] show ?thesis by (simp add: send_str_eq)
  qed
  show ?thesis
  proof (intro conjI impI inv m; (elim conjE)?)
    assume a: "req_str \<noteq> []" "json_loads E req_str = Inr (JArr (JStr ''REQ'' # sub_id # fs))"
      "map_of (ws s) w = Some c" "py_key sub_id = Some k"
    {
      assume d: "dict_in sub_id (subs c)"
      note x = rej [OF a(1,2) do_sub_duplicate [OF a(3,4) d]]
      from x show "ws (snd (do_request E w req_str s)) = ws s" by (rule conjunct1)
      from x show "sends (snd (do_request E w req_str s)) = sends s @
               [(w, notice_frame (''REQ command for sub_id that already exists - '' @ fmt E sub_id),
                 send_ok E (length (sends s)) w
                   (notice_frame (''REQ command for sub_id that already exists - ''
                                    @ fmt E sub_id)))]" by (rule conjunct2)
    }
    {
      assume d: "\<not> dict_in sub_id (subs c)" "m \<le> int (length (subs c))"
      from d(2) m have "max_sub s \<le> int (length (subs c))" by simp
      note x = rej [OF a(1,2) do_sub_limit [OF a(3,4) d(1) this], unfolded m]
      from x show "ws (snd (do_request E w req_str s)) = ws s" by (rule conjunct1)
      from x show "sends (snd (do_request E w req_str s)) = sends s @
               [(w, notice_frame (''REQ new sub_id '' @ fmt E sub_id
                                    @ '' not allowed, already at max subs='' @ str_int m),
                 send_ok E (length (sends s)) w
                   (notice_frame (''REQ new sub_id '' @ fmt E sub_id
                                    @ '' not allowed, already at max subs='' @ str_int m)))]"
        by (rule conjunct2)
    }
  qed
qed

text \<open>
  An instance: a relay with \<^verbatim>\<open>max_sub=1\<close> whose socket 0 holds \<^verbatim>\<open>x\<close> refuses \<^verbatim>\<open>d\<close>.
\<close>

theorem subscriptions_bounded_example:
  \<open>Relay_init ex_env [e2, e1] None 1 None None None None True = Inr ex_relay1
   \<and> reachable ex_env ex_relay1 ex_full
   \<and> subs_bounded ex_full
   \<and> sends (snd (do_request ex_env 0 ''["REQ","d",{}]'' ex_full)) =
       [(0, notice_frame ''REQ new sub_id d not allowed, already at max subs=1'', True)]
   \<and> ws (snd (do_request ex_env 0 ''["REQ","d",{}]'' ex_full)) = ws ex_full\<close>
proof -
  let ?c = "\<lparr>subs = [(JStr ''x'', \<lparr>sub_ident = JStr ''x'', sub_filter = JArr [JObj []]\<rparr>)],
                sock = 0\<rparr>"
  note T = subscriptions_bounded [OF ex_relay1_init _ ex_full_reachable,
      of \<open>''["REQ","d",{}]''\<close> "JStr ''d''" "[JObj []]" 0 ?c "KStr ''d''"]
  have hyp: \<open>''["REQ","d",{}]'' \<noteq> []\<close>
    \<open>json_loads ex_env ''["REQ","d",{}]'' = Inr (JArr [JStr ''REQ'', JStr ''d'', JObj []])\<close>
    "map_of (ws ex_full) 0 = Some ?c" "py_key (JStr ''d'') = Some (KStr ''d'')"
    "\<not> dict_in (JStr ''d'') (subs ?c)" "(1::int) \<le> int (length (subs ?c))"
    "sends ex_full = []" "fmt ex_env (JStr ''d'') = ''d''"
    "send_ok ex_env n w d" for n w d
    by (simp_all add: ex_full_eq ex_relay1_def ex_relay_def ex_env_def ex_loads_def ex_frames_def dict_in_def fmt_def)
  from T have b: "subs_bounded ex_full" by simp
  from T hyp have
    \<open>sends (snd (do_request ex_env 0 ''["REQ","d",{}]'' ex_full)) =
       [(0, notice_frame ''REQ new sub_id d not allowed, already at max subs=1'', True)]\<close>
    \<open>ws (snd (do_request ex_env 0 ''["REQ","d",{}]'' ex_full)) = ws ex_full\<close>
    by (simp_all add: str_int_1)
  with ex_relay1_init ex_full_reachable b show ?thesis by (intro conjI)
qed

subsection \<open>C6: a \<^verbatim>\<open>REQ\<close> without filters\<close>

text \<open>
  C6. An accepted \<^verbatim>\<open>REQ\<close> that carries a \<^verbatim>\<open>sub_id\<close> and no filter registers the
  subscription with the filter \<^verbatim>\<open>{}\<close> of line 329 and hands that filter to
  \<^verbatim>\<open>store.get_filter\<close>. \<^verbatim>\<open>Event.test\<close> and the store are not among the sources: when
  \<^verbatim>\<open>Event.test\<close> is the specification's \<open>matches\<close>, every event passes the test of
  \<^verbatim>\<open>{}\<close>, as it passes the test of the filter set \<^verbatim>\<open>[{}]\<close>, and in any state in which the
  subscription is registered a fan-out raises nothing and schedules the delivery of
  the event to it, whatever the event; when the store answers \<^verbatim>\<open>get_filter({})\<close> with
  those of its events \<open>stored\<close> that match \<^verbatim>\<open>{}\<close>, the backfill is started on all of the
  stored events, and in every state reached afterwards in which the ready queue is
  empty each of them has been handed to the socket, in the order of the store.
\<close>

theorem no_filter_subscription:
  assumes "map_of (ws s) w = Some c" "py_key sub_id = Some k" "\<not> dict_in sub_id (subs c)"
    "int (length (subs c)) < max_sub s"
    and "\<forall>e f. ev_test E e f = Inr (matches field_ok e f)"
  shows "do_sub E [verb, sub_id] w s =
     (case get_filter E (JObj []) (store s) of
        Inl e \<Rightarrow> (Some e, registered w c sub_id (JObj []) s)
      | Inr evts \<Rightarrow> (None, backfill E w sub_id evts (registered w c sub_id (JObj []) s)))
   \<and> map_of (ws (snd (do_sub E [verb, sub_id] w s))) w
       = Some (c\<lparr>subs := subs c @ [(sub_id, \<lparr>sub_ident = sub_id, sub_filter = JObj []\<rparr>)]\<rparr>)
   \<and> ev_test E evt (JObj []) = Inr True
   \<and> ev_test E evt (JArr [JObj []]) = Inr True
   \<and> (map_of (ws t) w = Some c'
        \<and> (sub_id, \<lparr>sub_ident = sub_id, sub_filter = JObj []\<rparr>) \<in> set (subs c') \<longrightarrow>
        fst (check_subs E evt t) = None
        \<and> Send_event (sock c') sub_id (event_data E evt) None
             \<in> set (ready (snd (check_subs E evt t))))
   \<and> (get_filter E (JObj []) (store s)
         = Inr (filter (\<lambda>d. matches stored_ok d (JObj [])) stored) \<longrightarrow>
        do_sub E [verb, sub_id] w s
          = (None, backfill E w sub_id stored (registered w c sub_id (JObj []) s))
        \<and> (\<forall>s2. reachable E (snd (do_sub E [verb, sub_id] w s)) s2 \<and> ready s2 = [] \<longrightarrow>
              (\<exists>L. sends s2 = sends s @ L
                 \<and> subseq (backfill_frames w sub_id stored (enable_nip15 s)) (map sent L))))"
proof (intro conjI allI impI; (elim conjE)?)
  show eq: "do_sub E [verb, sub_id] w s =
     (case get_filter E (JObj []) (store s) of
        Inl e \<Rightarrow> (Some e, registered w c sub_id (JObj []) s)
      | Inr evts \<Rightarrow> (None, backfill E w sub_id evts (registered w c sub_id (JObj []) s)))"
    using do_sub_accepted [OF assms(1-4), of E verb "[]"] by simp
  have "ws (snd (do_sub E [verb, sub_id] w s)) = ws (registered w c sub_id (JObj []) s)"
    unfolding eq using backfill_fields [of E w sub_id _ "registered w c sub_id (JObj []) s"]
    by (simp split: sum.splits)
  then show "map_of (ws (snd (do_sub E [verb, sub_id] w s))) w
       = Some (c\<lparr>subs := subs c @ [(sub_id, \<lparr>sub_ident = sub_id, sub_filter = JObj []\<rparr>)]\<rparr>)"
    using registered_fields [of w c sub_id "JObj []" s] by simp
  show all: "ev_test E evt (JObj []) = Inr True"
    using assms(5) by (simp add: matches_def matches_filter_def)
  show "ev_test E evt (JArr [JObj []]) = Inr True"
    using assms(5) by (simp add: matches_def matches_filter_def)
  have total: "\<forall>f. \<exists>b. ev_test E evt f = Inr b" using assms(5) by simp
  {
    assume t: "map_of (ws t) w = Some c'"
      "(sub_id, \<lparr>sub_ident = sub_id, sub_filter = JObj []\<rparr>) \<in> set (subs c')"
    have "ev_test E evt (sub_filter \<lparr>sub_ident = sub_id, sub_filter = JObj []\<rparr>) = Inr True"
      using all by simp
    note check_subs_schedules [OF total t this]
  }
  note live = this
  {
    assume t: "map_of (ws t) w = Some c'"
      "(sub_id, \<lparr>sub_ident = sub_id, sub_filter = JObj []\<rparr>) \<in> set (subs c')"
    from live [OF t] show "fst (check_subs E evt t) = None" by (rule conjunct1)
    from live [OF t] show "Send_event (sock c') sub_id (event_data E evt) None
             \<in> set (ready (snd (check_subs E evt t)))"
      by (rule conjunct2)
  }
  assume "get_filter E (JObj []) (store s)
         = Inr (filter (\<lambda>d. matches stored_ok d (JObj [])) stored)"
  then have g: "get_filter E (JObj []) (store s) = Inr stored"
    by (simp add: matches_def matches_filter_def)
  with eq show "do_sub E [verb, sub_id] w s
          = (None, backfill E w sub_id stored (registered w c sub_id (JObj []) s))"
    by simp
  fix s2
  assume r: "reachable E (snd (do_sub E [verb, sub_id] w s)) s2" "ready s2 = []"
  have f: "JObj [] = (if ([]::json list) = [] then JObj [] else JArr [])" by simp
  from do_sub_any_run [OF assms(1-4) f g r(1)] obtain L past rem where
    i: "sends s2 = sends s @ L"
    "backfill_frames w sub_id stored (enable_nip15 s) = past @ rem"
    "subseq past (map sent L)"
    "backfill_pending w sub_id (enable_nip15 s) (ready s2) rem"
    by (elim exE conjE)
  from i(4) r(2) have "rem = []" by (simp add: backfill_pending_idle)
  with i(1,2,3) show "\<exists>L. sends s2 = sends s @ L
                 \<and> subseq (backfill_frames w sub_id stored (enable_nip15 s)) (map sent L)"
    by (intro exI [of _ L]) simp
qed

text \<open>
  An instance: \<^verbatim>\<open>["REQ","x"]\<close> on socket 0 of the sample relay, whose \<^verbatim>\<open>Event.test\<close> is
  \<open>matches\<close> and whose store answers every query with all it holds; the event \<open>e3\<close> is
  then fanned out to the new subscription, and six callbacks after the \<^verbatim>\<open>REQ\<close> both
  stored events have been written.
\<close>

theorem no_filter_subscription_example:
  "map_of (ws ex_open) 0 = Some \<lparr>subs = [], sock = 0\<rparr>
   \<and> py_key (JStr ''x'') = Some (KStr ''x'')
   \<and> (\<forall>e f. ev_test ex_env e f = Inr (matches (\<lambda>e k v. False) e f))
   \<and> get_filter ex_env (JObj []) (store ex_open) = Inr [e2, e1]
   \<and> map_of (ws (snd (do_sub ex_env [JStr ''REQ'', JStr ''x''] 0 ex_open))) 0
       = Some \<lparr>subs = [(JStr ''x'', \<lparr>sub_ident = JStr ''x'', sub_filter = JObj []\<rparr>)], sock = 0\<rparr>
   \<and> Send_event 0 (JStr ''x'') e3 None
       \<in> set (ready (snd (check_subs ex_env e3
                 (snd (do_sub ex_env [JStr ''REQ'', JStr ''x''] 0 ex_open)))))
   \<and> subseq [(0, event_frame (JStr ''x'') e2), (0, event_frame (JStr ''x'') e1),
               (0, eose_frame (JStr ''x''))]
        (map sent (sends (steps ex_env 6 (snd (do_sub ex_env [JStr ''REQ'', JStr ''x''] 0 ex_open)))))"
proof -
  let ?s1 = "snd (do_sub ex_env [JStr ''REQ'', JStr ''x''] 0 ex_open)"
  let ?c' = "\<lparr>subs = [(JStr ''x'', \<lparr>sub_ident = JStr ''x'', sub_filter = JObj []\<rparr>)], sock = 0\<rparr>"
  have h: "map_of (ws ex_open) 0 = Some \<lparr>subs = [], sock = 0\<rparr>"
    "py_key (JStr ''x'') = Some (KStr ''x'')"
    "\<not> dict_in (JStr ''x'') (subs \<lparr>subs = [], sock = 0\<rparr>)"
    "int (length (subs \<lparr>subs = [], sock = 0\<rparr>)) < max_sub ex_open"
    "\<forall>e f. ev_test ex_env e f = Inr (matches (\<lambda>e k v. False) e f)"
    by (simp_all add: ex_open_eq2 dict_in_def ex_env_def ex_test_def)
  have g: "get_filter ex_env (JObj []) (store ex_open) = Inr [e2, e1]"
    "sends ex_open = []" "enable_nip15 ex_open" "event_data ex_env e3 = e3"
    by (simp_all add: ex_open_eq2 ex_env_def)
  have g': "get_filter ex_env (JObj []) (store ex_open)
      = Inr (filter (\<lambda>d. matches (\<lambda>e k v. False) d (JObj [])) [e2, e1])"
    by (simp add: g(1) matches_def matches_filter_def)
  note T = no_filter_subscription [OF h, where verb = "JStr ''REQ''"]
  note reg = T [THEN conjunct2, THEN conjunct1]
  have reg': "map_of (ws ?s1) 0 = Some ?c'" using reg by simp
  have mem: "(JStr ''x'', \<lparr>sub_ident = JStr ''x'', sub_filter = JObj []\<rparr>) \<in> set (subs ?c')"
    by simp
  from T [THEN conjunct2, THEN conjunct2, THEN conjunct2, THEN conjunct2, THEN conjunct1,
      rule_format, OF conjI [OF reg' mem], THEN conjunct2, of e3]
  have live: "Send_event 0 (JStr ''x'') e3 None \<in> set (ready (snd (check_subs ex_env e3 ?s1)))"
    by (simp add: g(4))
  have reach: "reachable ex_env ?s1 (steps ex_env 6 ?s1)"
    by (rule reachable_steps [OF reachable.initial])
  have idle: "ready (steps ex_env 6 ?s1) = []"
    by (simp add: eval_nat_numeral relay_defs ex_defs Let_def)
  from T [THEN conjunct2, THEN conjunct2, THEN conjunct2, THEN conjunct2, THEN conjunct2,
      rule_format, OF g', THEN conjunct2, rule_format, OF conjI [OF reach idle]]
  have "subseq [(0, event_frame (JStr ''x'') e2), (0, event_frame (JStr ''x'') e1),
               (0, eose_frame (JStr ''x''))]
        (map sent (sends (steps ex_env 6 ?s1)))"
    by (simp add: g backfill_frames_def)
  with h(1,2,5) g(1) reg' live show ?thesis by (intro conjI)
qed

subsection \<open>C7: the information document\<close>

text \<open>
  C7. For a relay that was constructed, a request that cannot be upgraded to a
  WebSocket is answered with status 200 and a body that is the information document,
  whose \<^verbatim>\<open>supported_nips\<close> is sorted, holds 1, 2 and 11, holds 9 exactly when the store
  says \<^verbatim>\<open>is_NIP09()\<close>, 15 exactly when \<^verbatim>\<open>enable_nip15\<close> is set and 16 exactly when the
  store says \<^verbatim>\<open>is_NIP16()\<close>. The content type of the response is \<^verbatim>\<open>text/plain\<close>, the
  default of \<^verbatim>\<open>web.Response(text=...)\<close>, not \<^verbatim>\<open>application/json\<close>.
\<close>

theorem NIP11_response:
  assumes "Relay_init E st h m name descr pubkey contact nip15 = Inr r"
  shows "fst (websocket_handler False r) =
           Inl \<lparr>status = 200, content_type = ''text/plain'', charset = ''utf-8'',
                body = relay_information r\<rparr>
         \<and> (\<exists>fields. relay_information r = JObj fields
              \<and> map_of fields ''supported_nips''
                  = Some (JArr (map JInt (supported_nips E st nip15))))
         \<and> sorted (supported_nips E st nip15)
         \<and> {1, 2, 11} \<subseteq> set (supported_nips E st nip15)
         \<and> (9 \<in> set (supported_nips E st nip15)) = is_NIP09 E st
         \<and> (15 \<in> set (supported_nips E st nip15)) = nip15
         \<and> (16 \<in> set (supported_nips E st nip15)) = is_NIP16 E st"
proof -
  have resp: "fst (websocket_handler False r) =
      Inl \<lparr>status = 200, content_type = ''text/plain'', charset = ''utf-8'',
           body = relay_information r\<rparr>"
    by (simp add: websocket_handler_def NIP11_relay_info_route_def web_Response_def)
  from Relay_init_information [OF assms] obtain more where
    "relay_information r =
       JObj ([(''software'', JStr ''https://github.com/monty888/nostrpy''),
              (''version'', JStr ''0.1''),
              (''supported_nips'', JArr (map JInt (supported_nips E st nip15)))] @ more)"
    by blast
  then have doc: "\<exists>fields. relay_information r = JObj fields
      \<and> map_of fields ''supported_nips'' = Some (JArr (map JInt (supported_nips E st nip15)))"
    by simp
  have mem: "{1, 2, 11} \<subseteq> set (supported_nips E st nip15)"
    "(9 \<in> set (supported_nips E st nip15)) = is_NIP09 E st"
    "(15 \<in> set (supported_nips E st nip15)) = nip15"
    "(16 \<in> set (supported_nips E st nip15)) = is_NIP16 E st"
    by (auto simp: set_supported_nips)
  show ?thesis
    by (intro conjI resp doc mem sorted_supported_nips)
qed

text \<open>
  An instance: the sample relay, whose store supports NIP-16 and not NIP-09.
\<close>

theorem NIP11_response_example:
  "Relay_init ex_env [e2, e1] None 3 None None None None True = Inr ex_relay
   \<and> fst (websocket_handler False ex_relay) =
       Inl \<lparr>status = 200, content_type = ''text/plain'', charset = ''utf-8'',
            body = relay_information ex_relay\<rparr>
   \<and> supported_nips ex_env [e2, e1] True = [1, 2, 11, 15, 16]"
proof -
  have nips: "supported_nips ex_env [e2, e1] True = [1, 2, 11, 15, 16]"
    by (simp add: supported_nips_def ex_env_def)
  from NIP11_response [OF ex_relay_init] have
    "fst (websocket_handler False ex_relay) =
       Inl \<lparr>status = 200, content_type = ''text/plain'', charset = ''utf-8'',
            body = relay_information ex_relay\<rparr>"
    by (rule conjunct1)
  with ex_relay_init nips show ?thesis
    by (intro conjI)
qed

subsection \<open>C8: a write that fails during the fan-out\<close>

text \<open>
  C8. A fan-out \<^verbatim>\<open>_check_subs\<close> appends its \<^verbatim>\<open>_send_event\<close> tasks \<open>new\<close> to the ready
  queue and changes nothing else. Whatever the outcome of each write (\<open>send_ok\<close> is
  arbitrary): in every state \<open>s2\<close> reached afterwards, whatever requests, frames,
  callbacks and closed sockets come in between, the frames of the scheduled deliveries
  split into those handed to \<^verbatim>\<open>ws.send_str\<close>, in the order scheduled, and those whose
  task is still in the ready queue (\<open>fanout_pending\<close>), and once the ready queue is
  empty every scheduled delivery has been attempted; when the fan-out started with no
  other callback ready, two callbacks per task attempt them all and leave the
  connection table as it was. A \<^verbatim>\<open>_do_send\<close> callback, whether its write fails or not,
  changes only the ready queue and the record of sends, so the socket keeps its entry
  and its subscriptions. No callback and no arriving frame changes the sockets that
  have an entry in the connection table, a new connection removes none, and the end
  of the read loop of a socket removes no entry but its own.
\<close>

theorem fanout_survives_failed_writes:
  assumes "check_subs E evt s = (x, s1)"
  shows "(\<exists>new. ready s1 = ready s @ new \<and> sends s1 = sends s \<and> ws s1 = ws s
        \<and> (\<forall>t \<in> set new. \<exists>w k d. t = Send_event w k d None)
        \<and> (\<forall>s2. reachable E s1 s2 \<longrightarrow>
              (\<exists>L past rem. sends s2 = sends s @ L
                 \<and> concat (map task_frame new) = past @ rem
                 \<and> subseq past (map sent L)
                 \<and> fanout_pending (ready s2) rem
                 \<and> (ready s2 = [] \<longrightarrow> subseq (concat (map task_frame new)) (map sent L))))
        \<and> (ready s = [] \<longrightarrow>
              steps E (2 * length new) s1
                = s1\<lparr>ready := [],
                      sends := send_each E (concat (map task_frame new)) (sends s)\<rparr>))
   \<and> (ready t = Do_send w d # q \<longrightarrow>
        step E t = t\<lparr>ready := q,
                      sends := sends t @ [(w, d, send_ok E (length (sends t)) w d)]\<rparr>)
   \<and> map fst (ws (step E t)) = map fst (ws t)
   \<and> ws (receive_text w req_str t) = ws t
   \<and> set (map fst (ws t)) \<subseteq> set (map fst (ws (snd (websocket_handler can_prepare t))))
   \<and> (w' \<noteq> w \<longrightarrow>
        (w' \<in> set (map fst (ws (snd (websocket_closed w t)))) \<longleftrightarrow> w' \<in> set (map fst (ws t))))"
proof (intro conjI impI)
  from check_subs_loop_ready [OF assms [unfolded check_subs_def]] obtain new where
    n: "ready s1 = ready s @ new"
    "\<forall>t \<in> set new. \<exists>(i, c) \<in> set (ws s). \<exists>(k, sb) \<in> set (subs c).
        t = Send_event (sock c) k (event_data E evt) None
        \<and> ev_test E evt (sub_filter sb) = Inr True"
    by blast
  from n(2) have shape: "\<forall>t \<in> set new. \<exists>w k d. t = Send_event w k d None" by fast
  note f = check_subs_fields [OF assms]
  have any: "\<forall>s2. reachable E s1 s2 \<longrightarrow>
              (\<exists>L past rem. sends s2 = sends s @ L
                 \<and> concat (map task_frame new) = past @ rem
                 \<and> subseq past (map sent L)
                 \<and> fanout_pending (ready s2) rem
                 \<and> (ready s2 = [] \<longrightarrow> subseq (concat (map task_frame new)) (map sent L)))"
  proof (intro allI impI)
    fix s2
    assume "reachable E s1 s2"
    from check_subs_any_run [OF assms this] obtain new' L past rem where
      i: "ready s1 = ready s @ new'" "sends s2 = sends s @ L"
      "concat (map task_frame new') = past @ rem" "subseq past (map sent L)"
      "fanout_pending (ready s2) rem"
      by (elim exE conjE)
    from i(1) n(1) have same: "new' = new" by simp
    have "ready s2 = [] \<longrightarrow> subseq (concat (map task_frame new)) (map sent L)"
    proof
      assume "ready s2 = []"
      with i(5) have "rem = []" by (simp add: fanout_pending_idle)
      with i(3,4) same show "subseq (concat (map task_frame new)) (map sent L)" by simp
    qed
    with i(2-5) same show "\<exists>L past rem. sends s2 = sends s @ L
                 \<and> concat (map task_frame new) = past @ rem
                 \<and> subseq past (map sent L)
                 \<and> fanout_pending (ready s2) rem
                 \<and> (ready s2 = [] \<longrightarrow> subseq (concat (map task_frame new)) (map sent L))"
      by (intro exI [of _ L] exI [of _ past] exI [of _ rem] conjI) simp_all
  qed
  have alone: "ready s = [] \<longrightarrow>
              steps E (2 * length new) s1
                = s1\<lparr>ready := [],
                      sends := send_each E (concat (map task_frame new)) (sends s)\<rparr>"
  proof
    assume idle: "ready s = []"
    with n(1) have r: "ready s1 = new" by simp
    from run_fanout [OF r shape, of E] f
    show "steps E (2 * length new) s1
                = s1\<lparr>ready := [],
                      sends := send_each E (concat (map task_frame new)) (sends s)\<rparr>"
      by simp
  qed
  from n(1) f shape any alone
  show "\<exists>new. ready s1 = ready s @ new \<and> sends s1 = sends s \<and> ws s1 = ws s
        \<and> (\<forall>t \<in> set new. \<exists>w k d. t = Send_event w k d None)
        \<and> (\<forall>s2. reachable E s1 s2 \<longrightarrow>
              (\<exists>L past rem. sends s2 = sends s @ L
                 \<and> concat (map task_frame new) = past @ rem
                 \<and> subseq past (map sent L)
                 \<and> fanout_pending (ready s2) rem
                 \<and> (ready s2 = [] \<longrightarrow> subseq (concat (map task_frame new)) (map sent L))))
        \<and> (ready s = [] \<longrightarrow>
              steps E (2 * length new) s1
                = s1\<lparr>ready := [],
                      sends := send_each E (concat (map task_frame new)) (sends s)\<rparr>)"
    by (intro exI [of _ new] conjI) simp_all
next
  assume "ready t = Do_send w d # q"
  then show "step E t = t\<lparr>ready := q,
                      sends := sends t @ [(w, d, send_ok E (length (sends t)) w d)]\<rparr>"
    by (rule step_Do_send)
next
  show "map fst (ws (step E t)) = map fst (ws t)" by (rule keys_step)
  show "ws (receive_text w req_str t) = ws t" by (simp add: receive_text_def create_task_def)
  show "set (map fst (ws t)) \<subseteq> set (map fst (ws (snd (websocket_handler can_prepare t))))"
    by (auto simp: websocket_handler_def Let_def dom_update)
next
  assume "w' \<noteq> w"
  then show "w' \<in> set (map fst (ws (snd (websocket_closed w t)))) \<longleftrightarrow> w' \<in> set (map fst (ws t))"
    by (simp add: websocket_closed_def keys_delete split: option.splits)
qed

text \<open>
  An instance: the event \<open>e3\<close> fanned out to sockets 0 and 1 when every write to socket
  0 fails.
\<close>

theorem fanout_survives_failed_writes_example:
  "check_subs ex_env_deaf e3 ex_subscribed =
     (None, ex_subscribed\<lparr>ready := [Send_event 0 (JStr ''x'') e3 None,
                                     Send_event 1 (JStr ''y'') e3 None]\<rparr>)
   \<and> ready ex_subscribed = []
   \<and> steps ex_env_deaf 4
        (ex_subscribed\<lparr>ready := [Send_event 0 (JStr ''x'') e3 None,
                                  Send_event 1 (JStr ''y'') e3 None]\<rparr>)
      = ex_subscribed\<lparr>sends := [(0, event_frame (JStr ''x'') e3, False),
                                 (1, event_frame (JStr ''y'') e3, True)]\<rparr>"
proof -
  let ?new = "[Send_event 0 (JStr ''x'') e3 None, Send_event 1 (JStr ''y'') e3 None]"
  have r: "ready ex_subscribed = []" "sends ex_subscribed = []"
    by (simp_all add: ex_subscribed_def ex_open_eq ex_relay_def)
  from fanout_survives_failed_writes [OF ex_deaf_check_subs, THEN conjunct1] obtain new where
    n: "ready (ex_subscribed\<lparr>ready := ?new\<rparr>) = ready ex_subscribed @ new"
    "ready ex_subscribed = [] \<longrightarrow>
       steps ex_env_deaf (2 * length new) (ex_subscribed\<lparr>ready := ?new\<rparr>)
         = (ex_subscribed\<lparr>ready := ?new\<rparr>)\<lparr>ready := [],
              sends := send_each ex_env_deaf (concat (map task_frame new)) (sends ex_subscribed)\<rparr>"
    by (elim exE conjE)
  from n(1) r(1) have new: "new = ?new" by simp
  have e: "ex_subscribed\<lparr>ready := []\<rparr> = ex_subscribed"
    using r(1) by (cases ex_subscribed) simp
  from n(2) r(1) have "steps ex_env_deaf 4 (ex_subscribed\<lparr>ready := ?new\<rparr>)
      = (ex_subscribed\<lparr>ready := ?new\<rparr>)\<lparr>ready := [],
           sends := send_each ex_env_deaf (concat (map task_frame ?new)) (sends ex_subscribed)\<rparr>"
    unfolding new by simp
  also have "\<dots> = ex_subscribed\<lparr>sends := [(0, event_frame (JStr ''x'') e3, False),
                                 (1, event_frame (JStr ''y'') e3, True)]\<rparr>"
    using e by (simp add: r ex_env_deaf_def ex_env_def)
  finally show ?thesis using ex_deaf_check_subs r(1) by (intro conjI)
qed

text \<open>
  No teardown. Socket 1 posts \<open>e3\<close> while every write to socket 0 fails. After the five
  callbacks (the handler, two \<^verbatim>\<open>_send_event\<close> tasks, two \<^verbatim>\<open>_do_send\<close> tasks) the write
  to socket 0 has failed, the write to socket 1 has succeeded, and the connection
  table is unchanged: socket 0 is still registered with both its subscriptions.
\<close>

theorem failed_write_keeps_connection:
  \<open>ws (steps ex_env_deaf 5 (receive_text 1 ''["EVENT",{"id":"e3"}]'' ex_subscribed))
     = ws ex_subscribed
   \<and> sends (steps ex_env_deaf 5 (receive_text 1 ''["EVENT",{"id":"e3"}]'' ex_subscribed))
     = [(0, event_frame (JStr ''x'') e3, False), (1, event_frame (JStr ''y'') e3, True)]
   \<and> map_of (ws ex_subscribed) 0
     = Some \<lparr>subs = [(JStr ''x'', \<lparr>sub_ident = JStr ''x'', sub_filter = JObj []\<rparr>),
                     (JStr ''k'', \<lparr>sub_ident = JStr ''k'',
                                  sub_filter = JArr [JObj [(''kinds'', JArr [JInt 7])]]\<rparr>)],
             sock = 0\<rparr>\<close>
  by (simp add: eval_nat_numeral relay_defs ex_defs Let_def)

subsection \<open>C9: the fan-out delivers only to matching subscriptions\<close>

text \<open>
  C9. Every task that \<^verbatim>\<open>_check_subs\<close> creates for an event is a \<^verbatim>\<open>_send_event\<close> for a
  subscription of the connection table, on that subscription's socket and under its
  \<^verbatim>\<open>sub_id\<close>, for which \<^verbatim>\<open>evt.test\<close> of the subscription's filter returned true; this
  holds also when a later test raises.
\<close>

theorem check_subs_only_matching:
  assumes "check_subs E evt s = (x, s')"
  shows "\<exists>new. ready s' = ready s @ new
       \<and> (\<forall>t \<in> set new. \<exists>(i, c) \<in> set (ws s). \<exists>(k, sb) \<in> set (subs c).
             t = Send_event (sock c) k (event_data E evt) None
             \<and> ev_test E evt (sub_filter sb) = Inr True)"
  using assms unfolding check_subs_def by (rule check_subs_loop_ready)

text \<open>
  An instance: of the three subscriptions of the sample relay, the two whose filter
  matches get a delivery.
\<close>

theorem check_subs_only_matching_example:
  "check_subs ex_env e3 ex_subscribed =
     (None, ex_subscribed\<lparr>ready := [Send_event 0 (JStr ''x'') e3 None,
                                     Send_event 1 (JStr ''y'') e3 None]\<rparr>)
   \<and> (\<exists>new. ready (ex_subscribed\<lparr>ready := [Send_event 0 (JStr ''x'') e3 None,
                                            Send_event 1 (JStr ''y'') e3 None]\<rparr>)
               = ready ex_subscribed @ new
         \<and> (\<forall>t \<in> set new. \<exists>(i, c) \<in> set (ws ex_subscribed). \<exists>(k, sb) \<in> set (subs c).
               t = Send_event (sock c) k (event_data ex_env e3) None
               \<and> ev_test ex_env e3 (sub_filter sb) = Inr True))"
  by (intro conjI ex_check_subs check_subs_only_matching [OF ex_check_subs])

subsection \<open>C10: failures after the subscription is registered\<close>

text \<open>
  C10. An accepted \<^verbatim>\<open>REQ\<close> registers the subscription before it queries the store.
  When \<^verbatim>\<open>store.get_filter\<close> raises, the exception leaves \<^verbatim>\<open>_do_sub\<close> with the
  subscription registered, no frame sent, so no EOSE, and nothing scheduled. When the
  store answers with \<open>evts\<close>, \<^verbatim>\<open>_do_sub\<close> starts the backfill on the registered state, and
  whatever the outcome of each write (\<open>send_ok\<close> is arbitrary): in every state reached
  afterwards the backfill frames, EOSE included when \<^verbatim>\<open>enable_nip15\<close> is set, split
  into those handed to the socket, in order, and those for which the next task is in
  the ready queue, and once the ready queue is empty all of them, EOSE last, have
  been handed to the socket; when no other callback is ready at the \<^verbatim>\<open>REQ\<close>, three
  callbacks per event end in the registered state with the sends of all the backfill
  frames recorded, each with its outcome. A \<^verbatim>\<open>_do_send\<close> callback, whether its write
  fails or not, changes only the ready queue and the record of sends: the failure is
  swallowed and the registry is what it was.
\<close>

theorem failures_keep_subscription:
  assumes "map_of (ws s) w = Some c" "py_key sub_id = Some k" "\<not> dict_in sub_id (subs c)"
    "int (length (subs c)) < max_sub s" "f = (if fs = [] then JObj [] else JArr fs)"
  shows "(get_filter E f (store s) = Inl e \<longrightarrow>
           do_sub E (verb # sub_id # fs) w s = (Some e, registered w c sub_id f s))
   \<and> map_of (ws (registered w c sub_id f s)) w
       = Some (c\<lparr>subs := subs c @ [(sub_id, \<lparr>sub_ident = sub_id, sub_filter = f\<rparr>)]\<rparr>)
   \<and> sends (registered w c sub_id f s) = sends s
   \<and> ready (registered w c sub_id f s) = ready s
   \<and> (get_filter E f (store s) = Inr evts \<longrightarrow>
        do_sub E (verb # sub_id # fs) w s
          = (None, backfill E w sub_id evts (registered w c sub_id f s))
        \<and> (\<forall>s2. reachable E (snd (do_sub E (verb # sub_id # fs) w s)) s2 \<longrightarrow>
              (\<exists>L past rem. sends s2 = sends s @ L
                 \<and> backfill_frames w sub_id evts (enable_nip15 s) = past @ rem
                 \<and> subseq past (map sent L)
                 \<and> backfill_pending w sub_id (enable_nip15 s) (ready s2) rem
                 \<and> (ready s2 = [] \<longrightarrow>
                      subseq (backfill_frames w sub_id evts (enable_nip15 s)) (map sent L))))
        \<and> (ready s = [] \<longrightarrow>
              steps E (3 * length evts) (snd (do_sub E (verb # sub_id # fs) w s))
                = (registered w c sub_id f s)
                    \<lparr>sends := send_each E (backfill_frames w sub_id evts (enable_nip15 s))
                                (sends s)\<rparr>))
   \<and> (ready t = Do_send w' d # q \<longrightarrow>
        step E t = t\<lparr>ready := q,
                      sends := sends t @ [(w', d, send_ok E (length (sends t)) w' d)]\<rparr>)"
proof (intro conjI allI impI)
  assume "get_filter E f (store s) = Inl e"
  with do_sub_accepted [OF assms(1-4), of E verb fs] assms(5)
  show "do_sub E (verb # sub_id # fs) w s = (Some e, registered w c sub_id f s)" by simp
next
  show "map_of (ws (registered w c sub_id f s)) w
       = Some (c\<lparr>subs := subs c @ [(sub_id, \<lparr>sub_ident = sub_id, sub_filter = f\<rparr>)]\<rparr>)"
    "sends (registered w c sub_id f s) = sends s"
    "ready (registered w c sub_id f s) = ready s"
    using registered_fields [of w c sub_id f s] by simp_all
next
  assume "get_filter E f (store s) = Inr evts"
  with do_sub_accepted [OF assms(1-4), of E verb fs] assms(5)
  show "do_sub E (verb # sub_id # fs) w s
          = (None, backfill E w sub_id evts (registered w c sub_id f s))"
    by simp
next
  fix s2
  assume g: "get_filter E f (store s) = Inr evts"
    and "reachable E (snd (do_sub E (verb # sub_id # fs) w s)) s2"
  from do_sub_any_run [OF assms g this(2)] obtain L past rem where
    i: "sends s2 = sends s @ L"
    "backfill_frames w sub_id evts (enable_nip15 s) = past @ rem"
    "subseq past (map sent L)"
    "backfill_pending w sub_id (enable_nip15 s) (ready s2) rem"
    by (elim exE conjE)
  have "ready s2 = [] \<longrightarrow>
      subseq (backfill_frames w sub_id evts (enable_nip15 s)) (map sent L)"
  proof
    assume "ready s2 = []"
    with i(4) have "rem = []" by (simp add: backfill_pending_idle)
    with i(2,3) show "subseq (backfill_frames w sub_id evts (enable_nip15 s)) (map sent L)"
      by simp
  qed
  with i show "\<exists>L past rem. sends s2 = sends s @ L
             \<and> backfill_frames w sub_id evts (enable_nip15 s) = past @ rem
             \<and> subseq past (map sent L)
             \<and> backfill_pending w sub_id (enable_nip15 s) (ready s2) rem
             \<and> (ready s2 = [] \<longrightarrow>
                  subseq (backfill_frames w sub_id evts (enable_nip15 s)) (map sent L))"
    by (intro exI conjI)
next
  assume "get_filter E f (store s) = Inr evts" "ready s = []"
  then show "steps E (3 * length evts) (snd (do_sub E (verb # sub_id # fs) w s))
                = (registered w c sub_id f s)
                    \<lparr>sends := send_each E (backfill_frames w sub_id evts (enable_nip15 s))
                                (sends s)\<rparr>"
    by (rule do_sub_run [OF assms])
next
  assume "ready t = Do_send w' d # q"
  then show "step E t = t\<lparr>ready := q,
                      sends := sends t @ [(w', d, send_ok E (length (sends t)) w' d)]\<rparr>"
    by (rule step_Do_send)
qed

text \<open>
  An instance: \<^verbatim>\<open>["REQ","x"]\<close> on socket 0 of the sample relay when the first write
  fails: six callbacks later the subscription is registered, the first backfill frame
  was refused by the socket, and the second and EOSE have been written.
\<close>

theorem failures_keep_subscription_example:
  "get_filter ex_env_drop (JObj []) (store ex_open) = Inr [e2, e1]
   \<and> map_of (ws (steps ex_env_drop 6 (snd (do_sub ex_env_drop [JStr ''REQ'', JStr ''x''] 0 ex_open)))) 0
       = Some \<lparr>subs = [(JStr ''x'', \<lparr>sub_ident = JStr ''x'', sub_filter = JObj []\<rparr>)], sock = 0\<rparr>
   \<and> sends (steps ex_env_drop 6 (snd (do_sub ex_env_drop [JStr ''REQ'', JStr ''x''] 0 ex_open)))
       = [(0, event_frame (JStr ''x'') e2, False), (0, event_frame (JStr ''x'') e1, True),
          (0, eose_frame (JStr ''x''), True)]"
proof -
  let ?s1 = "snd (do_sub ex_env_drop [JStr ''REQ'', JStr ''x''] 0 ex_open)"
  have h: "map_of (ws ex_open) 0 = Some \<lparr>subs = [], sock = 0\<rparr>"
    "py_key (JStr ''x'') = Some (KStr ''x'')"
    "\<not> dict_in (JStr ''x'') (subs \<lparr>subs = [], sock = 0\<rparr>)"
    "int (length (subs \<lparr>subs = [], sock = 0\<rparr>)) < max_sub ex_open"
    "JObj [] = (if ([]::json list) = [] then JObj [] else JArr [])"
    by (simp_all add: ex_open_eq2 dict_in_def)
  have g: "get_filter ex_env_drop (JObj []) (store ex_open) = Inr [e2, e1]"
    "ready ex_open = []" "enable_nip15 ex_open" "sends ex_open = []"
    "send_ok ex_env_drop n w d = (n \<noteq> 0)" for n w d
    by (simp_all add: ex_open_eq2 ex_env_drop_def ex_env_def)
  note T = failures_keep_subscription [OF h, where E = ex_env_drop and evts = "[e2, e1]"
      and verb = "JStr ''REQ''"]
  note A = T [THEN conjunct2, THEN conjunct2, THEN conjunct2, THEN conjunct2, THEN conjunct1,
      rule_format, OF g(1)]
  from A [THEN conjunct2, THEN conjunct2, rule_format, OF g(2)]
  have run: "steps ex_env_drop 6 ?s1
      = (registered 0 \<lparr>subs = [], sock = 0\<rparr> (JStr ''x'') (JObj []) ex_open)
          \<lparr>sends := send_each ex_env_drop
              (backfill_frames 0 (JStr ''x'') [e2, e1] (enable_nip15 ex_open)) (sends ex_open)\<rparr>"
    by simp
  from T [THEN conjunct2, THEN conjunct1] have reg:
    "map_of (ws (registered 0 \<lparr>subs = [], sock = 0\<rparr> (JStr ''x'') (JObj []) ex_open)) 0
       = Some \<lparr>subs = [(JStr ''x'', \<lparr>sub_ident = JStr ''x'', sub_filter = JObj []\<rparr>)], sock = 0\<rparr>"
    by simp
  have "map_of (ws (steps ex_env_drop 6 ?s1)) 0
       = Some \<lparr>subs = [(JStr ''x'', \<lparr>sub_ident = JStr ''x'', sub_filter = JObj []\<rparr>)], sock = 0\<rparr>"
    unfolding run using reg by simp
  moreover have "sends (steps ex_env_drop 6 ?s1)
       = [(0, event_frame (JStr ''x'') e2, False), (0, event_frame (JStr ''x'') e1, True),
          (0, eose_frame (JStr ''x''), True)]"
    unfolding run by (simp add: g backfill_frames_def)
  ultimately show ?thesis using g(1) by (intro conjI)
qed

text \<open>
  EOSE after a failed backfill write. Socket 0 sends \<^verbatim>\<open>["REQ","x"]\<close>; the write of the
  first stored event fails; the second event and EOSE are sent all the same.
\<close>

theorem eose_after_failed_backfill_write:
  \<open>sends (steps ex_env_drop 7 (receive_text 0 ''["REQ","x"]'' ex_open)) =
     [(0, event_frame (JStr ''x'') e2, False),
      (0, event_frame (JStr ''x'') e1, True),
      (0, eose_frame (JStr ''x''), True)]\<close>
  by (simp add: eval_nat_numeral relay_defs ex_defs Let_def)


end
